theory Spec2Isabelle
  imports Complex_Main "HOL-Library.Multiset"
begin

section \<open>JavaScript values and objects\<close>

text \<open>
  The primitive values a task property can hold. Numbers are modelled as exact integers
  (ids are \<open>Date.now()\<close> timestamps, the number default is \<open>0\<close>); there is no NaN
  among them, so strict equality \<open>===\<close> on these values is HOL equality.
\<close>

datatype jsval = JUndefined | JNull | JBool bool | JNum int | JStr string

text \<open>
  A plain object is the list of its own properties in insertion order. A task is such an
  object with the keys \<open>id\<close>, \<open>title\<close>, \<open>priority\<close>, \<open>status\<close> and one key per custom
  field. (JavaScript enumerates integer-like keys first; the properties below are about
  the values under the keys, not about the order of the keys.)
\<close>

type_synonym obj = "(string \<times> jsval) list"

type_synonym task = obj

text \<open>
  Reading \<open>o[k]\<close> (or \<open>o.k\<close>): the own property, \<open>undefined\<close> when there is none. The
  keys read below (\<open>id\<close>, \<open>title\<close>, \<open>priority\<close>, \<open>status\<close>) are not among the
  inherited ones.
\<close>

definition js_get :: "obj \<Rightarrow> string \<Rightarrow> jsval" where
  "js_get ob k = (case map_of ob k of None \<Rightarrow> JUndefined | Some v \<Rightarrow> v)"

text \<open>
  Writing \<open>o[k] = v\<close>, and \<open>{...o, k: v}\<close>: an existing own property keeps its place and
  takes the new value, a new one is added at the end.
\<close>

fun js_assign :: "string \<Rightarrow> jsval \<Rightarrow> obj \<Rightarrow> obj" where
  "js_assign k v [] = [(k, v)]"
| "js_assign k v (p # ps) = (if fst p = k then (k, v) # ps else p # js_assign k v ps)"

text \<open>
  The property names every plain object inherits from \<open>Object.prototype\<close>; the \<open>in\<close>
  operator also finds these.
\<close>

definition object_prototype_keys :: "string list" where
  "object_prototype_keys =
     [''constructor'', ''hasOwnProperty'', ''isPrototypeOf'', ''propertyIsEnumerable'',
      ''toLocaleString'', ''toString'', ''valueOf'', ''__proto__'',
      ''__defineGetter__'', ''__defineSetter__'', ''__lookupGetter__'', ''__lookupSetter__'']"

definition js_in :: "string \<Rightarrow> obj \<Rightarrow> bool" where
  "js_in k ob = (map_of ob k \<noteq> None \<or> k \<in> set object_prototype_keys)"

text \<open>\<open>xs[i]\<close> on an array: \<open>undefined\<close> (here \<open>None\<close>) outside the array.\<close>

definition js_index :: "'a list \<Rightarrow> int \<Rightarrow> 'a option" where
  "js_index xs i = (if 0 \<le> i \<and> i < int (length xs) then Some (xs ! nat i) else None)"

text \<open>
  \<open>xs.slice(start, end)\<close>: a negative bound counts from the end of the array, both bounds
  are clamped to the array, and an empty range gives the empty array.
\<close>

definition js_slice :: "'a list \<Rightarrow> int \<Rightarrow> int \<Rightarrow> 'a list" where
  "js_slice xs start end =
     (let n = int (length xs);
          k = (if start < 0 then max (n + start) 0 else min start n);
          e = (if end < 0 then max (n + end) 0 else min end n)
      in take (nat (e - k)) (drop (nat k) xs))"

datatype exn = TypeError

section \<open>Component state of TaskTable\<close>

text \<open>A custom field descriptor \<open>{id, name, type}\<close>; \<open>field_id\<close> is its \<open>id\<close>.\<close>

record field =
  name :: string
  type :: string
  field_id :: int

text \<open>
  The state the handlers of \<open>TaskTable\<close> read and write: the store's task list, the
  history stack with its cursor, the custom fields, the selection, and the success
  notifications emitted so far (each \<open>toast.success\<close> appends its message).
  \<open>tasks\<close> is \<open>None\<close> when the store holds \<open>undefined\<close>, which is what
  \<open>history[i]\<close> gives outside the array.
\<close>

record state =
  tasks :: "task list option"
  history :: "task list list"
  historyIndex :: int
  customFields :: "field list"
  selectedTasks :: "jsval list"
  toasts :: "string list"

text \<open>The \<open>useState\<close> initial values and the store's initial task list.\<close>

definition initialState :: state where
  "initialState =
     \<lparr>tasks = Some [], history = [], historyIndex = - 1, customFields = [],
      selectedTasks = [], toasts = []\<rparr>"

definition setTasks :: "task list \<Rightarrow> state \<Rightarrow> state" where
  "setTasks ts s = s\<lparr>tasks := Some ts\<rparr>"

text \<open>
  The loading effect. \<open>stored\<close> is what \<open>getStoredTasks()\<close> returned; \<open>fetched\<close> is the
  outcome of the fallback request, \<open>None\<close> when it failed (the failure is logged and
  nothing is set).
\<close>

definition loadTasks :: "task list \<Rightarrow> task list option \<Rightarrow> state \<Rightarrow> state" where
  "loadTasks stored fetched s =
     (if length stored > 0
      then (setTasks stored s)\<lparr>history := [stored], historyIndex := 0\<rparr>
      else (case fetched of
              Some data \<Rightarrow> (setTasks data s)\<lparr>history := [data], historyIndex := 0\<rparr>
            | None \<Rightarrow> s))"

section \<open>History manager\<close>

definition addToHistory :: "task list \<Rightarrow> state \<Rightarrow> state" where
  "addToHistory newTasks s =
     (let newHistory = js_slice (history s) 0 (historyIndex s + 1) @ [newTasks]
      in s\<lparr>history := newHistory, historyIndex := int (length newHistory) - 1\<rparr>)"

definition handleUndo :: "state \<Rightarrow> state" where
  "handleUndo s =
     (if historyIndex s > 0
      then s\<lparr>historyIndex := historyIndex s - 1,
             tasks := js_index (history s) (historyIndex s - 1)\<rparr>
      else s)"

definition handleRedo :: "state \<Rightarrow> state" where
  "handleRedo s =
     (if historyIndex s < int (length (history s)) - 1
      then s\<lparr>historyIndex := historyIndex s + 1,
             tasks := js_index (history s) (historyIndex s + 1)\<rparr>
      else s)"

text \<open>
  The history operations as the user can issue them. A push is what every mutating
  handler does with its new list: \<open>setTasks(newTasks); addToHistory(newTasks)\<close>.
\<close>

datatype hist_op = Push "task list" | Undo | Redo

fun apply_hist_op :: "hist_op \<Rightarrow> state \<Rightarrow> state" where
  "apply_hist_op (Push newTasks) s = addToHistory newTasks (setTasks newTasks s)"
| "apply_hist_op Undo s = handleUndo s"
| "apply_hist_op Redo s = handleRedo s"

fun run_hist :: "hist_op list \<Rightarrow> state \<Rightarrow> state" where
  "run_hist [] s = s"
| "run_hist (x # xs) s = run_hist xs (apply_hist_op x s)"

text \<open>An initialized history: entries non-empty and the cursor a valid index.\<close>

definition cursor_valid :: "state \<Rightarrow> bool" where
  "cursor_valid s =
     (history s \<noteq> [] \<and> 0 \<le> historyIndex s \<and> historyIndex s < int (length (history s)))"

text \<open>The store shows the entry under the cursor.\<close>

definition in_sync :: "state \<Rightarrow> bool" where
  "in_sync s = (cursor_valid s \<and> tasks s = js_index (history s) (historyIndex s))"

section \<open>Task operations\<close>

text \<open>
  Each handler reads the state of the current render and returns the state after the
  event. \<open>tasks.map\<close>, \<open>tasks.filter\<close> and \<open>[...tasks]\<close> throw a TypeError when the
  store holds \<open>undefined\<close>. \<open>now\<close> is the value of \<open>Date.now()\<close>.
\<close>

definition toast_success :: "string \<Rightarrow> state \<Rightarrow> state" where
  "toast_success msg s = s\<lparr>toasts := toasts s @ [msg]\<rparr>"

definition handleCreateTask :: "task \<Rightarrow> int \<Rightarrow> state \<Rightarrow> exn + state" where
  "handleCreateTask newTask now s =
     (let task = js_assign ''id'' (JNum now) newTask
      in case tasks s of
           None \<Rightarrow> Inl TypeError
         | Some ts \<Rightarrow>
             (let newTasks = ts @ [task]
              in Inr (toast_success ''Task created successfully!''
                        (addToHistory newTasks (setTasks newTasks s)))))"

definition handleEditTask :: "task \<Rightarrow> state \<Rightarrow> exn + state" where
  "handleEditTask updatedTask s =
     (case tasks s of
        None \<Rightarrow> Inl TypeError
      | Some ts \<Rightarrow>
          (let newTasks =
                 map (\<lambda>task. if js_get task ''id'' = js_get updatedTask ''id''
                             then updatedTask else task) ts
           in Inr (toast_success ''Task updated successfully!''
                     (addToHistory newTasks (setTasks newTasks s)))))"

text \<open>\<open>confirmed\<close> is the answer of \<open>window.confirm\<close>.\<close>

definition handleDeleteTask :: "bool \<Rightarrow> jsval \<Rightarrow> state \<Rightarrow> exn + state" where
  "handleDeleteTask confirmed taskId s =
     (if confirmed
      then (case tasks s of
              None \<Rightarrow> Inl TypeError
            | Some ts \<Rightarrow>
                (let newTasks = filter (\<lambda>task. js_get task ''id'' \<noteq> taskId) ts
                 in Inr (toast_success ''Task deleted successfully!''
                           (addToHistory newTasks (setTasks newTasks s)))))
      else Inr s)"

subsection \<open>Custom field backfill\<close>

definition default_value :: "string \<Rightarrow> jsval" where
  "default_value ty =
     (if ty = ''checkbox'' then JBool False else if ty = ''number'' then JNum 0 else JStr [])"

text \<open>The \<open>fields.forEach\<close> loop over the copy \<open>newTask\<close> of one task.\<close>

fun backfillTask :: "field list \<Rightarrow> obj \<Rightarrow> obj" where
  "backfillTask [] newTask = newTask"
| "backfillTask (f # fs) newTask =
     backfillTask fs
       (if \<not> js_in (name f) newTask
        then js_assign (name f) (default_value (type f)) newTask
        else newTask)"

text \<open>
  \<open>setCustomFields(fields)\<close> is queued before \<open>tasks.map\<close> can throw; the error result
  stands for the aborted handler.
\<close>

definition handleCustomFieldsSave :: "field list \<Rightarrow> state \<Rightarrow> exn + state" where
  "handleCustomFieldsSave flds s =
     (let s1 = s\<lparr>customFields := flds\<rparr>
      in case tasks s1 of
           None \<Rightarrow> Inl TypeError
         | Some ts \<Rightarrow> Inr (setTasks (map (backfillTask flds) ts) s1))"

section \<open>View pipeline\<close>

subsection \<open>Strings\<close>

text \<open>
  A string is the list of its characters. The characters of HOL are 8 bits wide: ASCII
  text is written as it is, and a letter outside ASCII is written as its UTF-8 bytes.

  \<open>String.prototype.toLowerCase\<close> is a built-in of the engine: the lower-case mapping
  of Unicode, which looks at the neighbours of a letter and can change the length of the
  text. The definitions that call it take it as the parameter \<open>lower\<close>, so that what is
  proved of them holds whatever the built-in computes.
\<close>

fun startsWith :: "string \<Rightarrow> string \<Rightarrow> bool" where
  "startsWith hay [] = True"
| "startsWith [] (n # ns) = False"
| "startsWith (h # hs) (n # ns) = (h = n \<and> startsWith hs ns)"

text \<open>\<open>hay.includes(needle)\<close>: the needle occurs at some position of the haystack.\<close>

fun js_includes :: "string \<Rightarrow> string \<Rightarrow> bool" where
  "js_includes [] needle = (needle = [])"
| "js_includes (h # hs) needle = (startsWith (h # hs) needle \<or> js_includes hs needle)"

text \<open>Comparison of two strings by \<open><\<close>: lexicographic on the character codes.\<close>

fun str_lt :: "string \<Rightarrow> string \<Rightarrow> bool" where
  "str_lt [] [] = False"
| "str_lt [] (y # ys) = True"
| "str_lt (x # xs) [] = False"
| "str_lt (x # xs) (y # ys) =
     ((of_char x :: nat) < of_char y \<or> (x = y \<and> str_lt xs ys))"

subsection \<open>Filter\<close>

record filters =
  title :: string
  priority :: string
  status :: string

text \<open>
  The filter callback. \<open>task.title.toLowerCase()\<close> throws a TypeError unless the title
  is a string.
\<close>

definition matchesFilters :: "(string \<Rightarrow> string) \<Rightarrow> filters \<Rightarrow> task \<Rightarrow> exn + bool" where
  "matchesFilters lower f task =
     (case js_get task ''title'' of
        JStr ttl \<Rightarrow>
          (let matchesTitle = js_includes (lower ttl) (lower (title f));
               matchesPriority =
                 (priority f = ''all'' \<or> js_get task ''priority'' = JStr (priority f));
               matchesStatus =
                 (status f = ''all'' \<or> js_get task ''status'' = JStr (status f))
           in Inr (matchesTitle \<and> matchesPriority \<and> matchesStatus))
      | _ \<Rightarrow> Inl TypeError)"

text \<open>\<open>Array.prototype.filter\<close> with a callback that can throw.\<close>

fun js_filter :: "('a \<Rightarrow> exn + bool) \<Rightarrow> 'a list \<Rightarrow> exn + 'a list" where
  "js_filter p [] = Inr []"
| "js_filter p (x # xs) =
     (case p x of
        Inl e \<Rightarrow> Inl e
      | Inr b \<Rightarrow>
          (case js_filter p xs of
             Inl e \<Rightarrow> Inl e
           | Inr ys \<Rightarrow> Inr (if b then x # ys else ys)))"

definition filteredTasks ::
  "(string \<Rightarrow> string) \<Rightarrow> filters \<Rightarrow> task list \<Rightarrow> exn + task list" where
  "filteredTasks lower f ts = js_filter (matchesFilters lower f) ts"

subsection \<open>Sort\<close>

record sortConfig =
  key :: "string option"
  direction :: string

text \<open>
  The relational operator \<open><\<close> on primitive values: two strings compare as strings,
  anything else compares as numbers, and a comparison with NaN is false. The conversion
  of a string to a number (\<open>None\<close> for NaN) is the parameter \<open>str2num\<close>.
\<close>

fun to_number :: "(string \<Rightarrow> int option) \<Rightarrow> jsval \<Rightarrow> int option" where
  "to_number str2num JUndefined = None"
| "to_number str2num JNull = Some 0"
| "to_number str2num (JBool b) = Some (if b then 1 else 0)"
| "to_number str2num (JNum n) = Some n"
| "to_number str2num (JStr s) = str2num s"

fun js_lt :: "(string \<Rightarrow> int option) \<Rightarrow> jsval \<Rightarrow> jsval \<Rightarrow> bool" where
  "js_lt str2num (JStr x) (JStr y) = str_lt x y"
| "js_lt str2num a b =
     (case (to_number str2num a, to_number str2num b) of
        (Some m, Some n) \<Rightarrow> m < n
      | _ \<Rightarrow> False)"

text \<open>The comparator passed to \<open>sort\<close>; \<open>!sortConfig.key\<close> holds for \<open>null\<close> and \<open>''\<close>.\<close>

definition compareTasks ::
  "(string \<Rightarrow> int option) \<Rightarrow> sortConfig \<Rightarrow> task \<Rightarrow> task \<Rightarrow> int" where
  "compareTasks str2num cfg a b =
     (case key cfg of
        None \<Rightarrow> 0
      | Some k \<Rightarrow>
          if k = [] then 0
          else (let aValue = js_get a k; bValue = js_get b k
                in if js_lt str2num aValue bValue
                   then (if direction cfg = ''asc'' then - 1 else 1)
                   else if js_lt str2num bValue aValue
                   then (if direction cfg = ''asc'' then 1 else - 1)
                   else 0))"

text \<open>
  \<open>Array.prototype.sort\<close> is a stable sort: elements the comparator does not separate
  keep their order. It is modelled by stable insertion.
\<close>

fun sort_insert :: "('a \<Rightarrow> 'a \<Rightarrow> int) \<Rightarrow> 'a \<Rightarrow> 'a list \<Rightarrow> 'a list" where
  "sort_insert cmp x [] = [x]"
| "sort_insert cmp x (y # ys) =
     (if cmp x y \<le> 0 then x # y # ys else y # sort_insert cmp x ys)"

definition js_sort :: "('a \<Rightarrow> 'a \<Rightarrow> int) \<Rightarrow> 'a list \<Rightarrow> 'a list" where
  "js_sort cmp xs = foldr (sort_insert cmp) xs []"

definition sortedTasks ::
  "(string \<Rightarrow> int option) \<Rightarrow> sortConfig \<Rightarrow> task list \<Rightarrow> task list" where
  "sortedTasks str2num cfg filtered = js_sort (compareTasks str2num cfg) filtered"

subsection \<open>Paginate\<close>

record pagination =
  currentPage :: int
  pageSize :: int

definition paginatedTasks :: "pagination \<Rightarrow> 'a list \<Rightarrow> 'a list" where
  "paginatedTasks pg sortedList =
     js_slice sortedList ((currentPage pg - 1) * pageSize pg) (currentPage pg * pageSize pg)"

text \<open>
  \<open>Math.ceil(sortedTasks.length / pagination.pageSize)\<close>; with page size \<open>0\<close> the
  quotient is \<open>Infinity\<close> or NaN, which is no integer (\<open>None\<close>).
\<close>

definition totalPages :: "pagination \<Rightarrow> 'a list \<Rightarrow> int option" where
  "totalPages pg sortedList =
     (if pageSize pg = 0 then None
      else Some \<lceil>real (length sortedList) / real_of_int (pageSize pg)\<rceil>)"

section \<open>Custom fields modal\<close>

text \<open>The modal's state: the pending field list \<open>fields\<close>, the form \<open>newField\<close>
  (\<open>{name, type}\<close>) and the message \<open>error\<close>.\<close>

record draft =
  nf_name :: string
  nf_type :: string

record modal =
  fields_m :: "field list"
  newField :: draft
  error :: string

definition is_letter :: "char \<Rightarrow> bool" where
  "is_letter c =
     ((97 \<le> (of_char c :: nat) \<and> (of_char c :: nat) \<le> 122) \<or>
      (65 \<le> (of_char c :: nat) \<and> (of_char c :: nat) \<le> 90))"

definition is_digit :: "char \<Rightarrow> bool" where
  "is_digit c = (48 \<le> (of_char c :: nat) \<and> (of_char c :: nat) \<le> 57)"

text \<open>\<open>/^[a-zA-Z][a-zA-Z0-9_]*$/.test(name)\<close>.\<close>

definition test_pattern :: "string \<Rightarrow> bool" where
  "test_pattern nm =
     (case nm of
        [] \<Rightarrow> False
      | c # cs \<Rightarrow>
          is_letter c \<and> list_all (\<lambda>d. is_letter d \<or> is_digit d \<or> d = CHR ''_'') cs)"

definition validateFieldName :: "(string \<Rightarrow> string) \<Rightarrow> field list \<Rightarrow> string \<Rightarrow> string" where
  "validateFieldName lower flds nm =
     (if nm = [] then ''Field name is required''
      else if length nm < 2 then ''Field name must be at least 2 characters''
      else if list_ex (\<lambda>field. lower (name field) = lower nm) flds
      then ''Field name must be unique''
      else if \<not> test_pattern nm
      then ''Field name must start with a letter and contain only letters, numbers, and underscores''
      else [])"

definition handleAddField :: "(string \<Rightarrow> string) \<Rightarrow> int \<Rightarrow> modal \<Rightarrow> modal" where
  "handleAddField lower now m =
     (let validationError = validateFieldName lower (fields_m m) (nf_name (newField m))
      in if validationError \<noteq> []
         then m\<lparr>error := validationError\<rparr>
         else m\<lparr>fields_m :=
                  fields_m m @
                    [\<lparr>name = nf_name (newField m), type = nf_type (newField m),
                      field_id = now\<rparr>],
                newField := \<lparr>nf_name = [], nf_type = ''text''\<rparr>,
                error := []\<rparr>)"

section \<open>Lower case on ASCII text\<close>

text \<open>
  What \<open>toLowerCase\<close> does to ASCII text is known: \<open>A\<close>..\<open>Z\<close> become \<open>a\<close>..\<open>z\<close> and
  every other ASCII character stays. \<open>lowers_ascii lower\<close> says that a lowering agrees
  with this on every ASCII string, as the built-in does; nothing is said of other
  strings.
\<close>

definition ascii_lower_char :: "char \<Rightarrow> char" where
  "ascii_lower_char c =
     (if 65 \<le> (of_char c :: nat) \<and> (of_char c :: nat) \<le> 90
      then char_of ((of_char c :: nat) + 32) else c)"

definition ascii_lower :: "string \<Rightarrow> string" where
  "ascii_lower s = map ascii_lower_char s"

definition is_ascii :: "string \<Rightarrow> bool" where
  "is_ascii s = list_all (\<lambda>c. (of_char c :: nat) < 128) s"

definition lowers_ascii :: "(string \<Rightarrow> string) \<Rightarrow> bool" where
  "lowers_ascii lower = (\<forall>s. is_ascii s \<longrightarrow> lower s = ascii_lower s)"

section \<open>Lower case of the Greek sigma\<close>


section \<open>The filter rule in words\<close>





section \<open>Properties of the history manager\<close>

lemma js_slice_prefix: "0 \<le> i \<Longrightarrow> js_slice xs 0 i = take (nat i) xs"
  by (auto simp: js_slice_def Let_def min_def)

lemma js_index_Some: "0 \<le> i \<Longrightarrow> i < int (length xs) \<Longrightarrow> js_index xs i = Some (xs ! nat i)"
  by (simp add: js_index_def)

lemma history_addToHistory:
  "- 1 \<le> historyIndex s \<Longrightarrow>
   history (addToHistory x s) = take (nat (historyIndex s + 1)) (history s) @ [x]"
  by (simp add: addToHistory_def Let_def js_slice_prefix)

lemma historyIndex_addToHistory:
  "historyIndex (addToHistory x s) = int (length (history (addToHistory x s))) - 1"
  by (simp add: addToHistory_def Let_def)

lemma historyIndex_addToHistory_valid:
  "cursor_valid s \<Longrightarrow> historyIndex (addToHistory x s) = historyIndex s + 1"
  by (auto simp: addToHistory_def Let_def js_slice_prefix cursor_valid_def min_def)

lemma tasks_addToHistory: "tasks (addToHistory x s) = tasks s"
  by (simp add: addToHistory_def Let_def)

lemma cursor_valid_addToHistory: "cursor_valid s \<Longrightarrow> cursor_valid (addToHistory x s)"
  by (simp add: cursor_valid_def addToHistory_def Let_def)

lemma cursor_valid_setTasks: "cursor_valid (setTasks ts s) = cursor_valid s"
  by (simp add: cursor_valid_def setTasks_def)

lemma cursor_valid_handleUndo: "cursor_valid s \<Longrightarrow> cursor_valid (handleUndo s)"
  by (auto simp: cursor_valid_def handleUndo_def)

lemma cursor_valid_handleRedo: "cursor_valid s \<Longrightarrow> cursor_valid (handleRedo s)"
  by (auto simp: cursor_valid_def handleRedo_def)

lemma cursor_valid_apply: "cursor_valid s \<Longrightarrow> cursor_valid (apply_hist_op x s)"
  by (cases x) (simp_all add: cursor_valid_addToHistory cursor_valid_setTasks
      cursor_valid_handleUndo cursor_valid_handleRedo)

lemma cursor_valid_run: "cursor_valid s \<Longrightarrow> cursor_valid (run_hist ops s)"
  by (induction ops arbitrary: s) (simp_all add: cursor_valid_apply)

lemma in_sync_apply: "in_sync s \<Longrightarrow> in_sync (apply_hist_op x s)"
proof (cases x)
  case (Push ts)
  assume a: "in_sync s"
  then have v: "cursor_valid (setTasks ts s)"
    by (simp add: in_sync_def cursor_valid_setTasks)
  have i: "- 1 \<le> historyIndex (setTasks ts s)"
    using v by (simp add: cursor_valid_def)
  have "js_index (history (addToHistory ts (setTasks ts s)))
          (historyIndex (addToHistory ts (setTasks ts s))) = Some ts"
    unfolding historyIndex_addToHistory
    by (simp add: history_addToHistory [OF i] js_index_def nth_append)
  then show ?thesis
    using Push v by (simp add: in_sync_def cursor_valid_addToHistory tasks_addToHistory setTasks_def)
next
  case Undo
  assume a: "in_sync s"
  then have "cursor_valid (handleUndo s)"
    by (simp add: in_sync_def cursor_valid_handleUndo)
  moreover have "tasks (handleUndo s) = js_index (history (handleUndo s)) (historyIndex (handleUndo s))"
    using a by (simp add: in_sync_def handleUndo_def)
  ultimately show ?thesis using Undo by (simp add: in_sync_def)
next
  case Redo
  assume a: "in_sync s"
  then have "cursor_valid (handleRedo s)"
    by (simp add: in_sync_def cursor_valid_handleRedo)
  moreover have "tasks (handleRedo s) = js_index (history (handleRedo s)) (historyIndex (handleRedo s))"
    using a by (simp add: in_sync_def handleRedo_def)
  ultimately show ?thesis using Redo by (simp add: in_sync_def)
qed

lemma in_sync_run: "in_sync s \<Longrightarrow> in_sync (run_hist ops s)"
  by (induction ops arbitrary: s) (simp_all add: in_sync_apply)

lemma undo_after_push:
  assumes "cursor_valid s"
  shows "tasks (handleUndo (apply_hist_op (Push x) s)) = Some (history s ! nat (historyIndex s))"
proof -
  let ?p = "addToHistory x (setTasks x s)"
  have v: "cursor_valid (setTasks x s)" using assms by (simp add: cursor_valid_setTasks)
  have i: "historyIndex ?p = historyIndex s + 1"
    using historyIndex_addToHistory_valid [OF v] by (simp add: setTasks_def)
  have h: "history ?p = take (nat (historyIndex s + 1)) (history s) @ [x]"
    using history_addToHistory [of "setTasks x s" x] assms
    by (simp add: setTasks_def cursor_valid_def)
  have pos: "0 \<le> historyIndex s" "historyIndex s < int (length (history s))"
    using assms by (simp_all add: cursor_valid_def)
  have "js_index (history ?p) (historyIndex s) = Some (history s ! nat (historyIndex s))"
    using pos by (simp add: h js_index_def nth_append)
  then show ?thesis using pos by (simp add: handleUndo_def i)
qed

lemma redo_after_undo:
  assumes "cursor_valid s" "0 < historyIndex s"
  shows "tasks (handleRedo (handleUndo s)) = Some (history s ! nat (historyIndex s))"
  using assms by (simp add: handleRedo_def handleUndo_def cursor_valid_def js_index_def)

lemma redo_after_push: "handleRedo (addToHistory x s) = addToHistory x s"
  by (simp add: handleRedo_def addToHistory_def Let_def)

text \<open>
  C1. From an initialized history (entries non-empty, cursor a valid index), each of
  \<open>addToHistory\<close>, \<open>handleUndo\<close> and \<open>handleRedo\<close> gives a state whose cursor is again a
  valid index, and \<open>addToHistory\<close> keeps exactly the entries up to the cursor and appends
  the new snapshot after them.
\<close>

theorem history_cursor_valid:
  assumes "cursor_valid s"
  shows "cursor_valid (addToHistory newTasks s) \<and> cursor_valid (handleUndo s) \<and>
         cursor_valid (handleRedo s) \<and>
         history (addToHistory newTasks s) =
           take (nat (historyIndex s) + 1) (history s) @ [newTasks]"
proof -
  have "nat (historyIndex s + 1) = nat (historyIndex s) + 1"
    using assms by (simp add: cursor_valid_def nat_add_distrib)
  moreover have "- 1 \<le> historyIndex s"
    using assms by (simp add: cursor_valid_def)
  ultimately have "history (addToHistory newTasks s) =
      take (nat (historyIndex s) + 1) (history s) @ [newTasks]"
    using history_addToHistory [of s newTasks] by simp
  then show ?thesis
    using assms
    by (simp add: cursor_valid_addToHistory cursor_valid_handleUndo cursor_valid_handleRedo)
qed

theorem history_cursor_valid_witness:
  "cursor_valid (loadTasks [[(''id'', JNum 1)]] None initialState) \<and>
   (cursor_valid (addToHistory [] (loadTasks [[(''id'', JNum 1)]] None initialState)) \<and>
    cursor_valid (handleUndo (loadTasks [[(''id'', JNum 1)]] None initialState)) \<and>
    cursor_valid (handleRedo (loadTasks [[(''id'', JNum 1)]] None initialState)) \<and>
    history (addToHistory [] (loadTasks [[(''id'', JNum 1)]] None initialState)) =
      take (nat (historyIndex (loadTasks [[(''id'', JNum 1)]] None initialState)) + 1)
        (history (loadTasks [[(''id'', JNum 1)]] None initialState)) @ [[]])"
proof -
  have h: "cursor_valid (loadTasks [[(''id'', JNum 1)]] None initialState)"
    by (simp add: cursor_valid_def loadTasks_def setTasks_def initialState_def)
  from h history_cursor_valid [OF h, of "[]"] show ?thesis by (rule conjI)
qed

text \<open>
  C2, as the code has it. After any sequence of push, undo and redo operations on an
  initialized history (entries non-empty, cursor a valid index), an undo right after a
  push makes the task list the snapshot that was under the cursor just before the push,
  and a redo right after an undo that stepped back makes the task list the snapshot the
  undo stepped away from. That snapshot is the task list shown before, when the history
  and the task list started out in step.
\<close>

theorem undo_redo_restore:
  assumes "cursor_valid s0" and "s = run_hist ops s0"
  shows "tasks (handleUndo (apply_hist_op (Push x) s)) = Some (history s ! nat (historyIndex s)) \<and>
         (0 < historyIndex s \<longrightarrow>
            tasks (handleRedo (handleUndo s)) = Some (history s ! nat (historyIndex s))) \<and>
         (in_sync s0 \<longrightarrow> tasks s = Some (history s ! nat (historyIndex s)))"
proof -
  have v: "cursor_valid s"
    using assms by (simp add: cursor_valid_run)
  have "tasks s = Some (history s ! nat (historyIndex s))" if "in_sync s0"
  proof -
    have "in_sync s" using that assms(2) by (simp add: in_sync_run)
    then show ?thesis by (simp add: in_sync_def cursor_valid_def js_index_def)
  qed
  then show ?thesis
    using undo_after_push [OF v] redo_after_undo [OF v] by simp
qed

theorem undo_redo_restore_witness:
  "(cursor_valid (loadTasks [[(''id'', JNum 1)]] None initialState) \<and>
    0 < historyIndex (run_hist [Push []] (loadTasks [[(''id'', JNum 1)]] None initialState)) \<and>
    in_sync (loadTasks [[(''id'', JNum 1)]] None initialState)) \<and>
   tasks (handleUndo (apply_hist_op (Push [[(''id'', JNum 2)]])
            (run_hist [Push []] (loadTasks [[(''id'', JNum 1)]] None initialState)))) = Some [] \<and>
   tasks (handleRedo (handleUndo
            (run_hist [Push []] (loadTasks [[(''id'', JNum 1)]] None initialState)))) = Some [] \<and>
   tasks (run_hist [Push []] (loadTasks [[(''id'', JNum 1)]] None initialState)) = Some []"
proof -
  let ?init = "loadTasks [[(''id'', JNum 1)]] None initialState"
  let ?s = "run_hist [Push []] ?init"
  have h: "cursor_valid ?init"
    by (simp add: cursor_valid_def loadTasks_def setTasks_def initialState_def)
  have i: "in_sync ?init"
    by (simp add: in_sync_def cursor_valid_def loadTasks_def setTasks_def initialState_def
        js_index_def)
  have p: "0 < historyIndex ?s"
    by (simp add: loadTasks_def setTasks_def initialState_def addToHistory_def js_slice_def)
  have e: "history ?s ! nat (historyIndex ?s) = []"
    by (simp add: loadTasks_def setTasks_def initialState_def addToHistory_def js_slice_def)
  show ?thesis
    using undo_redo_restore [OF h refl, where ops = "[Push []]" and x = "[[(''id'', JNum 2)]]"] h i p
    unfolding e by blast
qed

text \<open>
  The claim C2 as written, for every sequence of operations, fails on the history a
  component starts with (no entries, cursor \<open>-1\<close>), which stays so when nothing could
  be loaded: the first push lands on cursor 0, where \<open>handleUndo\<close> does nothing, so
  the task list is still the pushed one and not the empty list shown before the push.
\<close>

theorem undo_after_first_push_counterexample:
  "tasks initialState = Some [] \<and> history initialState = [] \<and>
   historyIndex initialState = - 1 \<and>
   apply_hist_op (Push [[(''id'', JNum 1)]]) initialState =
     \<lparr>tasks = Some [[(''id'', JNum 1)]], history = [[[(''id'', JNum 1)]]], historyIndex = 0,
      customFields = [], selectedTasks = [], toasts = []\<rparr> \<and>
   handleUndo (apply_hist_op (Push [[(''id'', JNum 1)]]) initialState) =
     apply_hist_op (Push [[(''id'', JNum 1)]]) initialState \<and>
   tasks (handleUndo (apply_hist_op (Push [[(''id'', JNum 1)]]) initialState)) =
     Some [[(''id'', JNum 1)]]"
  by (simp add: initialState_def setTasks_def addToHistory_def js_slice_def handleUndo_def)

lemma seeded_or_fresh_apply:
  assumes "cursor_valid s \<or> (history s = [] \<and> historyIndex s = - 1)"
  shows "cursor_valid (apply_hist_op x s) \<or>
         (history (apply_hist_op x s) = [] \<and> historyIndex (apply_hist_op x s) = - 1)"
  using assms
proof
  assume "cursor_valid s"
  then show ?thesis by (simp add: cursor_valid_apply)
next
  assume f: "history s = [] \<and> historyIndex s = - 1"
  show ?thesis
  proof (cases x)
    case (Push ts)
    then show ?thesis
      by (simp add: cursor_valid_def addToHistory_def setTasks_def Let_def)
  next
    case Undo
    then show ?thesis using f by (simp add: handleUndo_def)
  next
    case Redo
    then show ?thesis using f by (simp add: handleRedo_def)
  qed
qed

lemma seeded_or_fresh_run:
  "cursor_valid s \<or> (history s = [] \<and> historyIndex s = - 1) \<Longrightarrow>
   cursor_valid (run_hist ops s) \<or>
   (history (run_hist ops s) = [] \<and> historyIndex (run_hist ops s) = - 1)"
proof (induction ops arbitrary: s)
  case Nil
  then show ?case by simp
next
  case (Cons x xs)
  from Cons.prems have "cursor_valid (apply_hist_op x s) \<or>
      (history (apply_hist_op x s) = [] \<and> historyIndex (apply_hist_op x s) = - 1)"
    by (rule seeded_or_fresh_apply)
  then show ?case using Cons.IH by simp
qed

text \<open>
  C3. In a state reached by an undo (after any earlier pushes, undos and redos, on an
  initialized history or on the still empty history of a fresh component),
  \<open>addToHistory\<close> cuts the entries down to those up to the cursor, appends the new
  snapshot and puts the cursor on the last index; after that \<open>handleRedo\<close> changes
  nothing, neither the cursor nor the task list. The same holds for the push of a
  mutating handler.
\<close>

theorem push_after_undo_discards_redo:
  assumes "cursor_valid s0 \<or> (history s0 = [] \<and> historyIndex s0 = - 1)"
    and "s = handleUndo (run_hist ops s0)"
  shows "history (addToHistory x s) = take (nat (historyIndex s + 1)) (history s) @ [x] \<and>
         historyIndex (addToHistory x s) = int (length (history (addToHistory x s))) - 1 \<and>
         handleRedo (addToHistory x s) = addToHistory x s \<and>
         handleRedo (apply_hist_op (Push x) s) = apply_hist_op (Push x) s"
proof -
  have "cursor_valid s \<or> (history s = [] \<and> historyIndex s = - 1)"
    using seeded_or_fresh_apply [of "run_hist ops s0" Undo] seeded_or_fresh_run [OF assms(1)]
      assms(2)
    by simp
  then have "- 1 \<le> historyIndex s"
    by (auto simp: cursor_valid_def)
  then have "history (addToHistory x s) = take (nat (historyIndex s + 1)) (history s) @ [x]"
    by (rule history_addToHistory)
  then show ?thesis
    by (simp add: historyIndex_addToHistory redo_after_push)
qed

theorem push_after_undo_discards_redo_witness:
  "cursor_valid (loadTasks [[(''id'', JNum 1)]] None initialState) \<and>
   history (addToHistory [[(''id'', JNum 3)]]
       (handleUndo (run_hist [Push []] (loadTasks [[(''id'', JNum 1)]] None initialState)))) =
     [[[(''id'', JNum 1)]], [[(''id'', JNum 3)]]] \<and>
   historyIndex (addToHistory [[(''id'', JNum 3)]]
       (handleUndo (run_hist [Push []] (loadTasks [[(''id'', JNum 1)]] None initialState)))) = 1 \<and>
   handleRedo (addToHistory [[(''id'', JNum 3)]]
       (handleUndo (run_hist [Push []] (loadTasks [[(''id'', JNum 1)]] None initialState)))) =
     addToHistory [[(''id'', JNum 3)]]
       (handleUndo (run_hist [Push []] (loadTasks [[(''id'', JNum 1)]] None initialState)))"
proof -
  let ?init = "loadTasks [[(''id'', JNum 1)]] None initialState"
  let ?u = "handleUndo (run_hist [Push []] ?init)"
  let ?p = "addToHistory [[(''id'', JNum 3)]] ?u"
  have h: "cursor_valid ?init"
    by (simp add: cursor_valid_def loadTasks_def setTasks_def initialState_def)
  then have h': "cursor_valid ?init \<or> (history ?init = [] \<and> historyIndex ?init = - 1)" ..
  have e: "historyIndex ?u = 0" "history ?u = [[[(''id'', JNum 1)]], []]"
    by (simp_all add: loadTasks_def setTasks_def initialState_def addToHistory_def js_slice_def
        handleUndo_def)
  note t = push_after_undo_discards_redo
    [OF h' refl, where ops = "[Push []]" and x = "[[(''id'', JNum 3)]]"]
  have a: "history ?p = [[[(''id'', JNum 1)]], [[(''id'', JNum 3)]]]"
    using t unfolding e by simp
  have b: "historyIndex ?p = 1"
    using t unfolding a by simp
  have c: "handleRedo ?p = ?p"
    using t by blast
  from h a b c show ?thesis by blast
qed

section \<open>Properties of the task operations\<close>

lemma handleEditTask_Some:
  "tasks s = Some ts \<Longrightarrow>
   handleEditTask u s =
     Inr (toast_success ''Task updated successfully!''
           (addToHistory (map (\<lambda>task. if js_get task ''id'' = js_get u ''id'' then u else task) ts)
              (setTasks (map (\<lambda>task. if js_get task ''id'' = js_get u ''id'' then u else task) ts) s)))"
  by (simp add: handleEditTask_def Let_def)

lemma map_no_match: "(\<forall>t\<in>set ts. js_get t ''id'' \<noteq> js_get u ''id'') \<Longrightarrow>
   map (\<lambda>task. if js_get task ''id'' = js_get u ''id'' then u else task) ts = ts"
  by (induction ts) simp_all

lemma history_toast [simp]: "history (toast_success m s) = history s"
  by (simp add: toast_success_def)

lemma historyIndex_toast [simp]: "historyIndex (toast_success m s) = historyIndex s"
  by (simp add: toast_success_def)

lemma tasks_toast [simp]: "tasks (toast_success m s) = tasks s"
  by (simp add: toast_success_def)

lemma toasts_toast [simp]: "toasts (toast_success m s) = toasts s @ [m]"
  by (simp add: toast_success_def)

lemma addToHistory_setTasks:
  "history (addToHistory x (setTasks y s)) = history (addToHistory x s)"
  "historyIndex (addToHistory x (setTasks y s)) = historyIndex (addToHistory x s)"
  "tasks (addToHistory x (setTasks y s)) = Some y"
  "toasts (addToHistory x (setTasks y s)) = toasts s"
  by (simp_all add: addToHistory_def setTasks_def Let_def)

lemma handleCreateTask_push:
  "tasks s = Some ts \<Longrightarrow>
   handleCreateTask newTask now s =
     Inr (toast_success ''Task created successfully!''
           (apply_hist_op (Push (ts @ [js_assign ''id'' (JNum now) newTask])) s))"
  by (simp add: handleCreateTask_def Let_def)

lemma handleEditTask_push:
  "tasks s = Some ts \<Longrightarrow>
   handleEditTask u s =
     Inr (toast_success ''Task updated successfully!''
           (apply_hist_op
              (Push (map (\<lambda>task. if js_get task ''id'' = js_get u ''id'' then u else task) ts)) s))"
  by (simp add: handleEditTask_Some)

lemma handleDeleteTask_push:
  "tasks s = Some ts \<Longrightarrow>
   handleDeleteTask True taskId s =
     Inr (toast_success ''Task deleted successfully!''
           (apply_hist_op (Push (filter (\<lambda>task. js_get task ''id'' \<noteq> taskId) ts)) s))"
  by (simp add: handleDeleteTask_def Let_def)

text \<open>
  C4, as the code has it. For every task list and updated task, \<open>handleEditTask\<close>
  puts the updated task in the place of each element whose id equals its id and leaves
  every other element, the length and the order as they were; it always pushes one
  history entry holding the resulting list and always emits one success notification.
  When no id matches, the resulting list equals the old one, and the entry is pushed and
  the notification emitted all the same.
\<close>

theorem handleEditTask_effect:
  assumes "tasks s = Some ts"
  shows "\<exists>s' newTasks.
           handleEditTask updatedTask s = Inr s' \<and> tasks s' = Some newTasks \<and>
           length newTasks = length ts \<and>
           (\<forall>i<length ts. newTasks ! i =
              (if js_get (ts ! i) ''id'' = js_get updatedTask ''id'' then updatedTask else ts ! i)) \<and>
           ((\<forall>t\<in>set ts. js_get t ''id'' \<noteq> js_get updatedTask ''id'') \<longrightarrow> newTasks = ts) \<and>
           history s' = history (addToHistory newTasks s) \<and>
           historyIndex s' = historyIndex (addToHistory newTasks s) \<and>
           length (history s') = length (js_slice (history s) 0 (historyIndex s + 1)) + 1 \<and>
           toasts s' = toasts s @ [''Task updated successfully!'']"
proof -
  let ?new = "map (\<lambda>task. if js_get task ''id'' = js_get updatedTask ''id'' then updatedTask else task) ts"
  let ?s' = "toast_success ''Task updated successfully!'' (addToHistory ?new (setTasks ?new s))"
  have 1: "handleEditTask updatedTask s = Inr ?s'"
    using assms by (rule handleEditTask_Some)
  have 2: "tasks ?s' = Some ?new" by (simp add: addToHistory_setTasks)
  have 3: "length ?new = length ts" by simp
  have 4: "\<forall>i<length ts. ?new ! i =
              (if js_get (ts ! i) ''id'' = js_get updatedTask ''id'' then updatedTask else ts ! i)"
    by simp
  have 5: "(\<forall>t\<in>set ts. js_get t ''id'' \<noteq> js_get updatedTask ''id'') \<longrightarrow> ?new = ts"
    using map_no_match by blast
  have 6: "history ?s' = history (addToHistory ?new s)"
    "historyIndex ?s' = historyIndex (addToHistory ?new s)"
    by (simp_all add: addToHistory_setTasks)
  have 7: "length (history ?s') = length (js_slice (history s) 0 (historyIndex s + 1)) + 1"
    by (simp add: addToHistory_def setTasks_def Let_def)
  have 8: "toasts ?s' = toasts s @ [''Task updated successfully!'']"
    by (simp add: addToHistory_setTasks)
  show ?thesis using 1 2 3 4 5 6 7 8 by blast
qed

theorem handleEditTask_effect_witness:
  "tasks (loadTasks [[(''id'', JNum 1), (''title'', JStr ''a'')]] None initialState) =
     Some [[(''id'', JNum 1), (''title'', JStr ''a'')]] \<and>
   (\<exists>s' newTasks.
      handleEditTask [(''id'', JNum 2), (''title'', JStr ''b'')]
        (loadTasks [[(''id'', JNum 1), (''title'', JStr ''a'')]] None initialState) = Inr s' \<and>
      tasks s' = Some newTasks \<and>
      length newTasks = length [[(''id'', JNum 1), (''title'', JStr ''a'')]] \<and>
      (\<forall>i<length [[(''id'', JNum 1), (''title'', JStr ''a'')]]. newTasks ! i =
         (if js_get ([[(''id'', JNum 1), (''title'', JStr ''a'')]] ! i) ''id'' =
             js_get [(''id'', JNum 2), (''title'', JStr ''b'')] ''id''
          then [(''id'', JNum 2), (''title'', JStr ''b'')]
          else [[(''id'', JNum 1), (''title'', JStr ''a'')]] ! i)) \<and>
      ((\<forall>t\<in>set [[(''id'', JNum 1), (''title'', JStr ''a'')]].
          js_get t ''id'' \<noteq> js_get [(''id'', JNum 2), (''title'', JStr ''b'')] ''id'') \<longrightarrow>
       newTasks = [[(''id'', JNum 1), (''title'', JStr ''a'')]]) \<and>
      history s' =
        history (addToHistory newTasks
          (loadTasks [[(''id'', JNum 1), (''title'', JStr ''a'')]] None initialState)) \<and>
      historyIndex s' =
        historyIndex (addToHistory newTasks
          (loadTasks [[(''id'', JNum 1), (''title'', JStr ''a'')]] None initialState)) \<and>
      length (history s') =
        length (js_slice
          (history (loadTasks [[(''id'', JNum 1), (''title'', JStr ''a'')]] None initialState)) 0
          (historyIndex (loadTasks [[(''id'', JNum 1), (''title'', JStr ''a'')]] None initialState)
             + 1)) + 1 \<and>
      toasts s' =
        toasts (loadTasks [[(''id'', JNum 1), (''title'', JStr ''a'')]] None initialState) @
          [''Task updated successfully!''])"
proof -
  have h: "tasks (loadTasks [[(''id'', JNum 1), (''title'', JStr ''a'')]] None initialState) =
             Some [[(''id'', JNum 1), (''title'', JStr ''a'')]]"
    by (simp add: loadTasks_def setTasks_def initialState_def)
  from h handleEditTask_effect [OF h, of "[(''id'', JNum 2), (''title'', JStr ''b'')]"]
  show ?thesis by (rule conjI)
qed


text \<open>
  The claim C4 as written fails: with one stored task of id 1, an update carrying id 2
  matches nothing, yet the history grows from one entry to two, the cursor moves to the
  new entry and the success notification is emitted.
\<close>

theorem handleEditTask_no_match_counterexample:
  "js_get [(''id'', JNum 1), (''title'', JStr ''a'')] ''id'' \<noteq>
     js_get [(''id'', JNum 2), (''title'', JStr ''b'')] ''id'' \<and>
   loadTasks [[(''id'', JNum 1), (''title'', JStr ''a'')]] None initialState =
     \<lparr>tasks = Some [[(''id'', JNum 1), (''title'', JStr ''a'')]],
      history = [[[(''id'', JNum 1), (''title'', JStr ''a'')]]],
      historyIndex = 0, customFields = [], selectedTasks = [], toasts = []\<rparr> \<and>
   handleEditTask [(''id'', JNum 2), (''title'', JStr ''b'')]
     (loadTasks [[(''id'', JNum 1), (''title'', JStr ''a'')]] None initialState) =
     Inr \<lparr>tasks = Some [[(''id'', JNum 1), (''title'', JStr ''a'')]],
          history = [[[(''id'', JNum 1), (''title'', JStr ''a'')]],
                     [[(''id'', JNum 1), (''title'', JStr ''a'')]]],
          historyIndex = 1, customFields = [], selectedTasks = [],
          toasts = [''Task updated successfully!'']\<rparr>"
  by (simp add: handleEditTask_def loadTasks_def initialState_def setTasks_def addToHistory_def
      toast_success_def js_slice_def js_get_def Let_def)

section \<open>Properties of the custom field backfill\<close>

lemma map_of_js_assign:
  "map_of (js_assign k v ob) k' = (if k' = k then Some v else map_of ob k')"
  by (induction ob) auto

lemma backfillTask_keeps:
  "map_of ob k = Some v \<Longrightarrow> map_of (backfillTask flds ob) k = Some v"
proof (induction flds arbitrary: ob)
  case Nil
  then show ?case by simp
next
  case (Cons f flds)
  show ?case
  proof (cases "js_in (name f) ob")
    case True
    then show ?thesis using Cons by simp
  next
    case False
    then have "map_of ob (name f) = None" by (simp add: js_in_def)
    then have "k \<noteq> name f" using Cons.prems by auto
    then have "map_of (js_assign (name f) (default_value (type f)) ob) k = Some v"
      using Cons.prems by (simp add: map_of_js_assign)
    then show ?thesis using False Cons.IH by simp
  qed
qed

lemma backfillTask_adds:
  "map_of (backfillTask flds ob) k = Some v \<Longrightarrow> map_of ob k = None \<Longrightarrow>
   \<exists>f\<in>set flds. name f = k \<and> v = default_value (type f)"
proof (induction flds arbitrary: ob)
  case Nil
  then show ?case by simp
next
  case (Cons f flds)
  let ?ob = "if \<not> js_in (name f) ob then js_assign (name f) (default_value (type f)) ob else ob"
  have b: "map_of (backfillTask flds ?ob) k = Some v" using Cons.prems(1) by simp
  show ?case
  proof (cases "map_of ?ob k")
    case None
    then have "\<exists>g\<in>set flds. name g = k \<and> v = default_value (type g)"
      using Cons.IH [OF b] by simp
    then show ?thesis by auto
  next
    case (Some w)
    then have "map_of (backfillTask flds ?ob) k = Some w" by (rule backfillTask_keeps)
    then have "w = v" using b by simp
    moreover have "name f = k \<and> w = default_value (type f)"
      using Some Cons.prems(2) by (auto simp: map_of_js_assign split: if_splits)
    ultimately show ?thesis by auto
  qed
qed

lemma handleCustomFieldsSave_Some:
  "tasks s = Some ts \<Longrightarrow>
   handleCustomFieldsSave flds s = Inr (setTasks (map (backfillTask flds) ts) (s\<lparr>customFields := flds\<rparr>))"
  by (simp add: handleCustomFieldsSave_def Let_def)

lemma handleCustomFieldsSave_None:
  "tasks s = None \<Longrightarrow> handleCustomFieldsSave flds s = Inl TypeError"
  by (simp add: handleCustomFieldsSave_def Let_def)

text \<open>
  C9. For every state and every saved field list, \<open>handleCustomFieldsSave\<close> leaves the
  history entries and the history cursor as they were: it writes the backfilled task
  list to the store and pushes no history entry.
\<close>

theorem backfill_no_history:
  "(\<forall>s'. handleCustomFieldsSave flds s = Inr s' \<longrightarrow>
      history s' = history s \<and> historyIndex s' = historyIndex s) \<and>
   (\<forall>ts. tasks s = Some ts \<longrightarrow>
      (\<exists>s'. handleCustomFieldsSave flds s = Inr s' \<and>
            tasks s' = Some (map (backfillTask flds) ts)))"
  by (cases "tasks s")
     (simp_all add: handleCustomFieldsSave_Some handleCustomFieldsSave_None setTasks_def)

theorem backfill_no_history_witness:
  "tasks (loadTasks [[(''id'', JNum 1)]] None initialState) = Some [[(''id'', JNum 1)]] \<and>
   (\<exists>s'. handleCustomFieldsSave [\<lparr>name = ''done'', type = ''checkbox'', field_id = 5\<rparr>]
           (loadTasks [[(''id'', JNum 1)]] None initialState) = Inr s' \<and>
         tasks s' = Some [[(''id'', JNum 1), (''done'', JBool False)]] \<and>
         history s' = [[[(''id'', JNum 1)]]] \<and> historyIndex s' = 0)"
proof -
  let ?init = "loadTasks [[(''id'', JNum 1)]] None initialState"
  let ?f = "[\<lparr>name = ''done'', type = ''checkbox'', field_id = 5\<rparr>]"
  have h: "tasks ?init = Some [[(''id'', JNum 1)]]"
    by (simp add: loadTasks_def setTasks_def initialState_def)
  have e: "history ?init = [[[(''id'', JNum 1)]]]" "historyIndex ?init = 0"
    by (simp_all add: loadTasks_def setTasks_def initialState_def)
  have b: "map (backfillTask ?f) [[(''id'', JNum 1)]] = [[(''id'', JNum 1), (''done'', JBool False)]]"
    by (simp add: js_in_def object_prototype_keys_def default_value_def)
  note t = backfill_no_history [of ?f ?init]
  from t h obtain s' where
    r: "handleCustomFieldsSave ?f ?init = Inr s'"
       "tasks s' = Some (map (backfillTask ?f) [[(''id'', JNum 1)]])"
    by blast
  from t r(1) have "history s' = history ?init \<and> historyIndex s' = historyIndex ?init"
    by blast
  with r have "handleCustomFieldsSave ?f ?init = Inr s' \<and>
      tasks s' = Some [[(''id'', JNum 1), (''done'', JBool False)]] \<and>
      history s' = [[[(''id'', JNum 1)]]] \<and> historyIndex s' = 0"
    unfolding b e by simp
  then have "\<exists>s'. handleCustomFieldsSave ?f ?init = Inr s' \<and>
      tasks s' = Some [[(''id'', JNum 1), (''done'', JBool False)]] \<and>
      history s' = [[[(''id'', JNum 1)]]] \<and> historyIndex s' = 0" ..
  with h show ?thesis by (rule conjI)
qed


text \<open>
  C10. The backfill keeps the number and the order of the tasks; in each task every
  property that was there keeps its value (so do \<open>id\<close>, \<open>title\<close>, \<open>priority\<close> and
  \<open>status\<close>), and every property that was not there is the name of one of the fields
  and holds that field's default: \<open>false\<close> for a checkbox, \<open>0\<close> for a number, the
  empty string for a text field.
\<close>

theorem backfill_only_adds_defaults:
  assumes "tasks s = Some ts"
  shows "\<exists>s' ts'.
           handleCustomFieldsSave flds s = Inr s' \<and> tasks s' = Some ts' \<and>
           length ts' = length ts \<and>
           (\<forall>i<length ts.
              ts' ! i = backfillTask flds (ts ! i) \<and>
              (\<forall>k v. map_of (ts ! i) k = Some v \<longrightarrow> map_of (ts' ! i) k = Some v) \<and>
              (\<forall>k v. map_of (ts' ! i) k = Some v \<longrightarrow> map_of (ts ! i) k = None \<longrightarrow>
                 (\<exists>f\<in>set flds. name f = k \<and> v = default_value (type f)))) \<and>
           default_value ''checkbox'' = JBool False \<and>
           default_value ''number'' = JNum 0 \<and>
           default_value ''text'' = JStr []"
proof -
  let ?ts' = "map (backfillTask flds) ts"
  let ?s' = "setTasks ?ts' (s\<lparr>customFields := flds\<rparr>)"
  have 1: "handleCustomFieldsSave flds s = Inr ?s'"
    using assms by (rule handleCustomFieldsSave_Some)
  have 2: "tasks ?s' = Some ?ts'" by (simp add: setTasks_def)
  have 3: "length ?ts' = length ts" by simp
  have 4: "\<forall>i<length ts.
              ?ts' ! i = backfillTask flds (ts ! i) \<and>
              (\<forall>k v. map_of (ts ! i) k = Some v \<longrightarrow> map_of (?ts' ! i) k = Some v) \<and>
              (\<forall>k v. map_of (?ts' ! i) k = Some v \<longrightarrow> map_of (ts ! i) k = None \<longrightarrow>
                 (\<exists>f\<in>set flds. name f = k \<and> v = default_value (type f)))"
    using backfillTask_keeps backfillTask_adds by simp
  have 5: "default_value ''checkbox'' = JBool False \<and> default_value ''number'' = JNum 0 \<and>
           default_value ''text'' = JStr []"
    by (simp add: default_value_def)
  show ?thesis using 1 2 3 4 5 by blast
qed

lemma backfillTask_example:
  "backfillTask
     [\<lparr>name = ''pages'', type = ''number'', field_id = 4\<rparr>,
      \<lparr>name = ''done'', type = ''checkbox'', field_id = 5\<rparr>,
      \<lparr>name = ''toString'', type = ''text'', field_id = 6\<rparr>,
      \<lparr>name = ''note'', type = ''text'', field_id = 7\<rparr>]
     [(''id'', JNum 1), (''pages'', JNum 7)] =
   [(''id'', JNum 1), (''pages'', JNum 7), (''done'', JBool False), (''note'', JStr [])]"
  by (simp add: js_in_def object_prototype_keys_def default_value_def)

theorem backfill_only_adds_defaults_witness:
  "tasks (loadTasks [[(''id'', JNum 1), (''pages'', JNum 7)]] None initialState) =
     Some [[(''id'', JNum 1), (''pages'', JNum 7)]] \<and>
   (\<exists>s' ts'.
      handleCustomFieldsSave
        [\<lparr>name = ''pages'', type = ''number'', field_id = 4\<rparr>,
         \<lparr>name = ''done'', type = ''checkbox'', field_id = 5\<rparr>]
        (loadTasks [[(''id'', JNum 1), (''pages'', JNum 7)]] None initialState) = Inr s' \<and>
      tasks s' = Some ts' \<and>
      length ts' = length [[(''id'', JNum 1), (''pages'', JNum 7)]] \<and>
      (\<forall>i<length [[(''id'', JNum 1), (''pages'', JNum 7)]].
         ts' ! i =
           backfillTask
             [\<lparr>name = ''pages'', type = ''number'', field_id = 4\<rparr>,
              \<lparr>name = ''done'', type = ''checkbox'', field_id = 5\<rparr>]
             ([[(''id'', JNum 1), (''pages'', JNum 7)]] ! i) \<and>
         (\<forall>k v. map_of ([[(''id'', JNum 1), (''pages'', JNum 7)]] ! i) k = Some v \<longrightarrow>
                map_of (ts' ! i) k = Some v) \<and>
         (\<forall>k v. map_of (ts' ! i) k = Some v \<longrightarrow>
                map_of ([[(''id'', JNum 1), (''pages'', JNum 7)]] ! i) k = None \<longrightarrow>
                (\<exists>f\<in>set [\<lparr>name = ''pages'', type = ''number'', field_id = 4\<rparr>,
                           \<lparr>name = ''done'', type = ''checkbox'', field_id = 5\<rparr>].
                   name f = k \<and> v = default_value (type f)))) \<and>
      default_value ''checkbox'' = JBool False \<and>
      default_value ''number'' = JNum 0 \<and>
      default_value ''text'' = JStr [])"
proof -
  have h: "tasks (loadTasks [[(''id'', JNum 1), (''pages'', JNum 7)]] None initialState) =
             Some [[(''id'', JNum 1), (''pages'', JNum 7)]]"
    by (simp add: loadTasks_def setTasks_def initialState_def)
  from h backfill_only_adds_defaults
    [OF h, of "[\<lparr>name = ''pages'', type = ''number'', field_id = 4\<rparr>,
               \<lparr>name = ''done'', type = ''checkbox'', field_id = 5\<rparr>]"]
  show ?thesis by (rule conjI)
qed


section \<open>Properties of the view pipeline\<close>

subsection \<open>Filter\<close>





lemma lowers_ascii_ascii_lower: "lowers_ascii ascii_lower"
  by (simp add: lowers_ascii_def)



lemma js_filter_Inr_titles:
  "js_filter (matchesFilters lower f) ts = Inr r \<Longrightarrow>
   \<forall>task\<in>set ts. \<exists>ttl. js_get task ''title'' = JStr ttl"
proof (induction ts arbitrary: r)
  case Nil
  then show ?case by simp
next
  case (Cons t ts)
  then show ?case
    by (auto simp: matchesFilters_def split: sum.splits jsval.splits)
qed



lemma filteredTasks_example:
  "filteredTasks ascii_lower \<lparr>title = ''MILK'', priority = ''all'', status = ''completed''\<rparr>
     [[(''id'', JNum 1), (''title'', JStr ''Buy milk''), (''priority'', JStr ''high''),
       (''status'', JStr ''completed'')],
      [(''id'', JNum 2), (''title'', JStr ''Buy bread''), (''priority'', JStr ''high''),
       (''status'', JStr ''completed'')],
      [(''id'', JNum 3), (''title'', JStr ''Milk the cow''), (''priority'', JStr ''none''),
       (''status'', JStr ''not_started'')]] =
   Inr [[(''id'', JNum 1), (''title'', JStr ''Buy milk''), (''priority'', JStr ''high''),
         (''status'', JStr ''completed'')]]"
  by code_simp

lemma filteredTasks_throws_example:
  "filteredTasks lower \<lparr>title = [], priority = ''all'', status = ''all''\<rparr>
     [[(''id'', JNum 1), (''priority'', JStr ''high'')]] = Inl TypeError"
  by (simp add: filteredTasks_def matchesFilters_def js_get_def)







subsection \<open>Sort\<close>

lemma mset_sort_insert: "mset (sort_insert cmp x ys) = add_mset x (mset ys)"
  by (induction ys) simp_all

lemma mset_js_sort: "mset (js_sort cmp xs) = mset xs"
  by (induction xs) (simp_all add: js_sort_def mset_sort_insert)

lemma set_js_sort: "set (js_sort cmp xs) = set xs"
  using mset_js_sort [of cmp xs] by (rule mset_eq_setD)

lemma js_sort_Cons: "js_sort cmp (x # xs) = sort_insert cmp x (js_sort cmp xs)"
  by (simp add: js_sort_def)

lemma sort_insert_snoc:
  "cmp x y \<le> 0 \<Longrightarrow> sort_insert cmp x (zs @ [y]) = sort_insert cmp x zs @ [y]"
  by (induction zs) simp_all

lemma sort_insert_last:
  "\<forall>z\<in>set zs. 0 < cmp x z \<Longrightarrow> sort_insert cmp x zs = zs @ [x]"
  by (induction zs) auto

lemma set_sort_insert: "set (sort_insert cmp x ys) = insert x (set ys)"
  by (induction ys) auto

lemma sort_insert_sorted:
  assumes trans: "\<And>a b c. a \<in> A \<Longrightarrow> b \<in> A \<Longrightarrow> c \<in> A \<Longrightarrow>
                    cmp a b < 0 \<Longrightarrow> cmp b c < 0 \<Longrightarrow> cmp a c < 0"
    and anti: "\<And>a b. a \<in> A \<Longrightarrow> b \<in> A \<Longrightarrow> 0 < cmp a b \<Longrightarrow> cmp b a < 0"
    and x: "x \<in> A" and ys: "set ys \<subseteq> A"
    and nz: "\<And>z. z \<in> set ys \<Longrightarrow> cmp x z \<noteq> 0"
    and sorted: "sorted_wrt (\<lambda>a b. cmp a b < 0) ys"
  shows "sorted_wrt (\<lambda>a b. cmp a b < 0) (sort_insert cmp x ys)"
  using ys nz sorted
proof (induction ys)
  case Nil
  then show ?case by simp
next
  case (Cons y ys)
  have yA: "y \<in> A" and ysA: "set ys \<subseteq> A" using Cons.prems(1) by simp_all
  show ?case
  proof (cases "cmp x y \<le> 0")
    case True
    then have xy: "cmp x y < 0" using Cons.prems(2) [of y] by simp
    have "cmp x z < 0" if "z \<in> set ys" for z
    proof -
      have "cmp y z < 0" using Cons.prems(3) that by simp
      moreover have "z \<in> A" using that ysA by auto
      ultimately show ?thesis using trans [OF x yA _ xy] by blast
    qed
    then show ?thesis using True xy Cons.prems(3) by simp
  next
    case False
    then have "0 < cmp x y" by simp
    then have yx: "cmp y x < 0" using anti [OF x yA] by simp
    have IH: "sorted_wrt (\<lambda>a b. cmp a b < 0) (sort_insert cmp x ys)"
      using Cons.IH [OF ysA] Cons.prems(2,3) by simp
    have "set (sort_insert cmp x ys) = insert x (set ys)"
      by (rule set_sort_insert)
    then have "\<forall>z\<in>set (sort_insert cmp x ys). cmp y z < 0"
      using yx Cons.prems(3) by simp
    then show ?thesis using False IH by simp
  qed
qed

lemma sort_insert_rev:
  assumes trans: "\<And>a b c. a \<in> A \<Longrightarrow> b \<in> A \<Longrightarrow> c \<in> A \<Longrightarrow>
                    cmp1 a b < 0 \<Longrightarrow> cmp1 b c < 0 \<Longrightarrow> cmp1 a c < 0"
    and flip: "\<And>a b. cmp2 a b = - cmp1 a b"
    and x: "x \<in> A" and ys: "set ys \<subseteq> A"
    and nz: "\<And>z. z \<in> set ys \<Longrightarrow> cmp1 x z \<noteq> 0"
    and sorted: "sorted_wrt (\<lambda>a b. cmp1 a b < 0) ys"
  shows "sort_insert cmp2 x (rev ys) = rev (sort_insert cmp1 x ys)"
  using ys nz sorted
proof (induction ys)
  case Nil
  then show ?case by simp
next
  case (Cons y ys)
  have yA: "y \<in> A" and ysA: "set ys \<subseteq> A" using Cons.prems(1) by simp_all
  show ?case
  proof (cases "cmp1 x y \<le> 0")
    case True
    then have xy: "cmp1 x y < 0" using Cons.prems(2) [of y] by simp
    have "0 < cmp2 x z" if "z \<in> set (rev ys @ [y])" for z
    proof (cases "z = y")
      case True
      then show ?thesis using xy flip by simp
    next
      case False
      then have z: "z \<in> set ys" using that by simp
      then have "cmp1 y z < 0" using Cons.prems(3) by simp
      moreover have "z \<in> A" using z ysA by auto
      ultimately have "cmp1 x z < 0" using trans [OF x yA _ xy] by blast
      then show ?thesis using flip by simp
    qed
    then have "\<forall>z\<in>set (rev ys @ [y]). 0 < cmp2 x z" by blast
    then have "sort_insert cmp2 x (rev ys @ [y]) = (rev ys @ [y]) @ [x]"
      by (rule sort_insert_last)
    then show ?thesis using True by simp
  next
    case False
    then have "cmp2 x y \<le> 0" using flip by simp
    then have "sort_insert cmp2 x (rev ys @ [y]) = sort_insert cmp2 x (rev ys) @ [y]"
      by (rule sort_insert_snoc)
    moreover have "sort_insert cmp2 x (rev ys) = rev (sort_insert cmp1 x ys)"
      using Cons.IH [OF ysA] Cons.prems(2,3) by simp
    ultimately show ?thesis using False by simp
  qed
qed

lemma js_sort_sorted:
  assumes trans: "\<And>a b c. a \<in> A \<Longrightarrow> b \<in> A \<Longrightarrow> c \<in> A \<Longrightarrow>
                    cmp a b < 0 \<Longrightarrow> cmp b c < 0 \<Longrightarrow> cmp a c < 0"
    and anti: "\<And>a b. a \<in> A \<Longrightarrow> b \<in> A \<Longrightarrow> 0 < cmp a b \<Longrightarrow> cmp b a < 0"
    and xs: "set xs \<subseteq> A"
    and nz: "sorted_wrt (\<lambda>a b. cmp a b \<noteq> 0) xs"
  shows "sorted_wrt (\<lambda>a b. cmp a b < 0) (js_sort cmp xs)"
  using xs nz
proof (induction xs)
  case Nil
  then show ?case by (simp add: js_sort_def)
next
  case (Cons x xs)
  have "sorted_wrt (\<lambda>a b. cmp a b < 0) (sort_insert cmp x (js_sort cmp xs))"
  proof (rule sort_insert_sorted [where A = A])
    show "x \<in> A" using Cons.prems(1) by simp
    show "set (js_sort cmp xs) \<subseteq> A" using Cons.prems(1) by (simp add: set_js_sort)
    show "cmp x z \<noteq> 0" if "z \<in> set (js_sort cmp xs)" for z
      using that Cons.prems(2) by (simp add: set_js_sort)
    show "sorted_wrt (\<lambda>a b. cmp a b < 0) (js_sort cmp xs)"
      using Cons.IH Cons.prems by simp
  qed (use trans anti in blast)+
  then show ?case by (simp add: js_sort_Cons)
qed

lemma js_sort_rev:
  assumes trans: "\<And>a b c. a \<in> A \<Longrightarrow> b \<in> A \<Longrightarrow> c \<in> A \<Longrightarrow>
                    cmp1 a b < 0 \<Longrightarrow> cmp1 b c < 0 \<Longrightarrow> cmp1 a c < 0"
    and anti: "\<And>a b. a \<in> A \<Longrightarrow> b \<in> A \<Longrightarrow> 0 < cmp1 a b \<Longrightarrow> cmp1 b a < 0"
    and flip: "\<And>a b. cmp2 a b = - cmp1 a b"
    and xs: "set xs \<subseteq> A"
    and nz: "sorted_wrt (\<lambda>a b. cmp1 a b \<noteq> 0) xs"
  shows "js_sort cmp2 xs = rev (js_sort cmp1 xs)"
  using xs nz
proof (induction xs)
  case Nil
  then show ?case by (simp add: js_sort_def)
next
  case (Cons x xs)
  have IH: "js_sort cmp2 xs = rev (js_sort cmp1 xs)"
    using Cons.IH Cons.prems by simp
  have "sort_insert cmp2 x (rev (js_sort cmp1 xs)) = rev (sort_insert cmp1 x (js_sort cmp1 xs))"
  proof (rule sort_insert_rev [where A = A])
    show "x \<in> A" using Cons.prems(1) by simp
    show "set (js_sort cmp1 xs) \<subseteq> A" using Cons.prems(1) by (simp add: set_js_sort)
    show "cmp1 x z \<noteq> 0" if "z \<in> set (js_sort cmp1 xs)" for z
      using that Cons.prems(2) by (simp add: set_js_sort)
    show "sorted_wrt (\<lambda>a b. cmp1 a b < 0) (js_sort cmp1 xs)"
    proof (rule js_sort_sorted [where A = A])
      show "set xs \<subseteq> A" using Cons.prems(1) by simp
      show "sorted_wrt (\<lambda>a b. cmp1 a b \<noteq> 0) xs" using Cons.prems(2) by simp
    qed (use trans anti in blast)+
  qed (use trans flip in blast)+
  then show ?case by (simp add: js_sort_Cons IH)
qed

lemma str_lt_trans: "str_lt a b \<Longrightarrow> str_lt b c \<Longrightarrow> str_lt a c"
proof (induction a b arbitrary: c rule: str_lt.induct)
  case 1
  then show ?case by simp
next
  case (2 y ys)
  then show ?case by (cases c) simp_all
next
  case (3 x xs)
  then show ?case by simp
next
  case (4 x xs y ys)
  then show ?case by (cases c) auto
qed

lemma str_lt_total: "\<not> str_lt a b \<Longrightarrow> \<not> str_lt b a \<Longrightarrow> a = b"
  by (induction a b rule: str_lt.induct) (auto simp: not_less dest: le_antisym)

lemma compareTasks_flip:
  "compareTasks sn \<lparr>key = k, direction = ''desc''\<rparr> a b =
     - compareTasks sn \<lparr>key = k, direction = ''asc''\<rparr> a b"
  by (simp add: compareTasks_def Let_def split: option.splits)

lemma compareTasks_title:
  assumes "js_get a ''title'' = JStr x" "js_get b ''title'' = JStr y"
  shows "compareTasks sn \<lparr>key = Some ''title'', direction = ''asc''\<rparr> a b =
           (if str_lt x y then - 1 else if str_lt y x then 1 else 0)"
  using assms by (simp add: compareTasks_def Let_def)

lemma distinct_titles_separated:
  assumes "\<forall>t\<in>set xs. \<exists>x. js_get t ''title'' = JStr x"
    and "distinct (map (\<lambda>t. js_get t ''title'') xs)"
  shows "sorted_wrt
           (\<lambda>a b. compareTasks sn \<lparr>key = Some ''title'', direction = ''asc''\<rparr> a b \<noteq> 0) xs"
  using assms
proof (induction xs)
  case Nil
  then show ?case by simp
next
  case (Cons t ts)
  have "compareTasks sn \<lparr>key = Some ''title'', direction = ''asc''\<rparr> t z \<noteq> 0"
    if z: "z \<in> set ts" for z
  proof -
    obtain x where x: "js_get t ''title'' = JStr x" using Cons.prems(1) by auto
    obtain y where y: "js_get z ''title'' = JStr y" using Cons.prems(1) z by auto
    have "js_get t ''title'' \<noteq> js_get z ''title''" using Cons.prems(2) z by auto
    then have "x \<noteq> y" using x y by simp
    then have "str_lt x y \<or> str_lt y x" using str_lt_total by blast
    then show ?thesis by (auto simp: compareTasks_title [OF x y])
  qed
  then show ?case using Cons by simp
qed

lemma sort_title_rev:
  assumes titles: "\<forall>t\<in>set xs. \<exists>x. js_get t ''title'' = JStr x"
    and dist: "distinct (map (\<lambda>t. js_get t ''title'') xs)"
  shows "sortedTasks sn \<lparr>key = Some ''title'', direction = ''desc''\<rparr> xs =
           rev (sortedTasks sn \<lparr>key = Some ''title'', direction = ''asc''\<rparr> xs)"
  unfolding sortedTasks_def
proof (rule js_sort_rev [where A = "{t. \<exists>x. js_get t ''title'' = JStr x}"])
  let ?cmp = "compareTasks sn \<lparr>key = Some ''title'', direction = ''asc''\<rparr>"
  show "?cmp a c < 0"
    if m: "a \<in> {t. \<exists>x. js_get t ''title'' = JStr x}" "b \<in> {t. \<exists>x. js_get t ''title'' = JStr x}"
      "c \<in> {t. \<exists>x. js_get t ''title'' = JStr x}" and ab: "?cmp a b < 0" and bc: "?cmp b c < 0"
    for a b c
  proof -
    obtain x y z where t: "js_get a ''title'' = JStr x" "js_get b ''title'' = JStr y"
      "js_get c ''title'' = JStr z"
      using m by auto
    have "str_lt x y" using ab by (simp add: compareTasks_title [OF t(1,2)] split: if_splits)
    moreover have "str_lt y z"
      using bc by (simp add: compareTasks_title [OF t(2,3)] split: if_splits)
    ultimately have "str_lt x z" by (rule str_lt_trans)
    then show ?thesis by (simp add: compareTasks_title [OF t(1,3)])
  qed
  show "?cmp b a < 0"
    if m: "a \<in> {t. \<exists>x. js_get t ''title'' = JStr x}" "b \<in> {t. \<exists>x. js_get t ''title'' = JStr x}"
      and ab: "0 < ?cmp a b" for a b
  proof -
    obtain x y where t: "js_get a ''title'' = JStr x" "js_get b ''title'' = JStr y"
      using m by auto
    have "str_lt y x" using ab by (simp add: compareTasks_title [OF t] split: if_splits)
    then show ?thesis by (simp add: compareTasks_title [OF t(2,1)])
  qed
  show "compareTasks sn \<lparr>key = Some ''title'', direction = ''desc''\<rparr> a b = - ?cmp a b" for a b
    by (rule compareTasks_flip)
  show "set xs \<subseteq> {t. \<exists>x. js_get t ''title'' = JStr x}"
    using titles by auto
  show "sorted_wrt (\<lambda>a b. ?cmp a b \<noteq> 0) xs"
    using titles dist by (rule distinct_titles_separated)
qed

lemma strict_sorted_unique:
  assumes irrefl: "\<And>a. a \<in> A \<Longrightarrow> \<not> R a a"
    and trans: "\<And>a b c. a \<in> A \<Longrightarrow> b \<in> A \<Longrightarrow> c \<in> A \<Longrightarrow> R a b \<Longrightarrow> R b c \<Longrightarrow> R a c"
    and sub: "set xs \<subseteq> A" and same: "set ys = set xs"
    and sx: "sorted_wrt R xs" and sy: "sorted_wrt R ys"
  shows "xs = ys"
  using sub same sx sy
proof (induction xs arbitrary: ys)
  case Nil
  then show ?case by simp
next
  case (Cons x xs)
  have xA: "x \<in> A" and xsA: "set xs \<subseteq> A" using Cons.prems(1) by simp_all
  obtain y ys' where ys: "ys = y # ys'"
    using Cons.prems(2) by (cases ys) auto
  have yA: "y \<in> A" using Cons.prems(1,2) ys by auto
  have "x = y"
  proof (rule ccontr)
    assume ne: "x \<noteq> y"
    have "x \<in> set ys'" using Cons.prems(2) ys ne by auto
    then have 1: "R y x" using Cons.prems(4) ys by simp
    have "y \<in> set xs" using Cons.prems(2) ys ne by auto
    then have 2: "R x y" using Cons.prems(3) by simp
    have "R x x" using trans [OF xA yA xA 2 1] .
    then show False using irrefl [OF xA] by simp
  qed
  have nx: "x \<notin> set xs"
  proof
    assume "x \<in> set xs"
    then have "R x x" using Cons.prems(3) by simp
    then show False using irrefl [OF xA] by simp
  qed
  have ny: "y \<notin> set ys'"
  proof
    assume "y \<in> set ys'"
    then have "R y y" using Cons.prems(4) ys by simp
    then show False using irrefl [OF yA] by simp
  qed
  have "set ys' = set xs"
    using Cons.prems(2) ys \<open>x = y\<close> nx ny by auto
  moreover have "sorted_wrt R xs" "sorted_wrt R ys'"
    using Cons.prems(3,4) ys by simp_all
  ultimately have "xs = ys'" using Cons.IH [OF xsA] by simp
  then show ?case using ys \<open>x = y\<close> by simp
qed

lemma sorted_wrt_strict:
  assumes "\<And>a b. a \<in> set xs \<Longrightarrow> b \<in> set xs \<Longrightarrow> a \<noteq> b \<Longrightarrow> P a b \<Longrightarrow> Q a b"
    and "distinct xs" and "sorted_wrt P xs"
  shows "sorted_wrt Q xs"
  using assms by (induction xs) auto

lemma sort_title_rev_unique:
  assumes titles: "\<forall>t\<in>set xs. \<exists>x. js_get t ''title'' = JStr x"
    and dist: "distinct (map (\<lambda>t. js_get t ''title'') xs)"
    and ys: "mset ys = mset xs"
      "sorted_wrt (\<lambda>a b. compareTasks sn \<lparr>key = Some ''title'', direction = ''asc''\<rparr> a b \<le> 0) ys"
    and zs: "mset zs = mset xs"
      "sorted_wrt (\<lambda>a b. compareTasks sn \<lparr>key = Some ''title'', direction = ''desc''\<rparr> a b \<le> 0) zs"
  shows "zs = rev ys"
proof -
  let ?cmp = "compareTasks sn \<lparr>key = Some ''title'', direction = ''asc''\<rparr>"
  let ?R = "\<lambda>a b. ?cmp a b < 0"
  have dx: "distinct xs" using dist by (simp add: distinct_map)
  have inj: "inj_on (\<lambda>t. js_get t ''title'') (set xs)" using dist by (simp add: distinct_map)
  have sety: "set ys = set xs" using ys(1) by (rule mset_eq_setD)
  have setz: "set zs = set xs" using zs(1) by (rule mset_eq_setD)
  have dy: "distinct ys" using ys(1) dx by (metis mset_eq_imp_distinct_iff)
  have dz: "distinct zs" using zs(1) dx by (metis mset_eq_imp_distinct_iff)
  have cmp: "?cmp a b = (if str_lt x y then - 1 else if str_lt y x then 1 else 0)"
    if "js_get a ''title'' = JStr x" "js_get b ''title'' = JStr y" for a b x y
    using that by (rule compareTasks_title)
  have lt_or_gt: "?cmp a b < 0 \<or> 0 < ?cmp a b" if a: "a \<in> set xs" and b: "b \<in> set xs" and ne: "a \<noteq> b"
    for a b
  proof -
    obtain x where x: "js_get a ''title'' = JStr x" using titles a by auto
    obtain y where y: "js_get b ''title'' = JStr y" using titles b by auto
    have "js_get a ''title'' \<noteq> js_get b ''title''" using inj a b ne by (auto dest: inj_onD)
    then have "x \<noteq> y" using x y by simp
    then have "str_lt x y \<or> str_lt y x" using str_lt_total by blast
    then show ?thesis by (auto simp: cmp [OF x y])
  qed
  have anti: "?cmp b a < 0" if a: "a \<in> set xs" and b: "b \<in> set xs" and gt: "0 < ?cmp a b" for a b
  proof -
    obtain x where x: "js_get a ''title'' = JStr x" using titles a by auto
    obtain y where y: "js_get b ''title'' = JStr y" using titles b by auto
    have "str_lt y x" using gt by (simp add: cmp [OF x y] split: if_splits)
    then show ?thesis by (simp add: cmp [OF y x])
  qed
  have irrefl: "\<not> ?R a a" if a: "a \<in> set xs" for a
  proof
    assume r: "?R a a"
    obtain x where x: "js_get a ''title'' = JStr x" using titles a by auto
    have "str_lt x x" using r by (simp add: cmp [OF x x] split: if_splits)
    moreover have "\<not> str_lt x x" by (induction x) simp_all
    ultimately show False by simp
  qed
  have trans: "?R a c" if a: "a \<in> set xs" and b: "b \<in> set xs" and c: "c \<in> set xs"
    and ab: "?R a b" and bc: "?R b c" for a b c
  proof -
    obtain x where x: "js_get a ''title'' = JStr x" using titles a by auto
    obtain y where y: "js_get b ''title'' = JStr y" using titles b by auto
    obtain z where z: "js_get c ''title'' = JStr z" using titles c by auto
    have "str_lt x y" using ab by (simp add: cmp [OF x y] split: if_splits)
    moreover have "str_lt y z" using bc by (simp add: cmp [OF y z] split: if_splits)
    ultimately have "str_lt x z" by (rule str_lt_trans)
    then show ?thesis by (simp add: cmp [OF x z])
  qed
  have sy: "sorted_wrt ?R ys"
  proof (rule sorted_wrt_strict [OF _ dy ys(2)])
    fix a b
    assume "a \<in> set ys" "b \<in> set ys" "a \<noteq> b" "?cmp a b \<le> 0"
    then show "?cmp a b < 0" using lt_or_gt [of a b] sety by auto
  qed
  have "sorted_wrt (\<lambda>a b. ?R b a) zs"
  proof (rule sorted_wrt_strict [OF _ dz zs(2)])
    fix a b
    assume h: "a \<in> set zs" "b \<in> set zs" "a \<noteq> b"
      "compareTasks sn \<lparr>key = Some ''title'', direction = ''desc''\<rparr> a b \<le> 0"
    then have "0 \<le> ?cmp a b" by (simp add: compareTasks_flip)
    then have "0 < ?cmp a b" using lt_or_gt [of a b] h(1-3) setz by auto
    then show "?cmp b a < 0" using anti [of a b] h(1,2) setz by simp
  qed
  then have sz: "sorted_wrt ?R (rev zs)" by (simp add: sorted_wrt_rev)
  have "ys = rev zs"
  proof (rule strict_sorted_unique [where A = "set xs" and R = ?R])
    show "set ys \<subseteq> set xs" using sety by simp
    show "set (rev zs) = set ys" using sety setz by simp
  qed (use irrefl trans sy sz in blast)+
  then show ?thesis by simp
qed

lemma js_filter_subset: "js_filter p xs = Inr r \<Longrightarrow> set r \<subseteq> set xs"
  by (induction xs arbitrary: r) (auto split: sum.splits if_splits)

lemma sortedTasks_no_key: "sortedTasks sn \<lparr>key = None, direction = d\<rparr> xs = xs"
proof -
  have "sort_insert (\<lambda>a b. 0) x ys = x # ys" for x :: task and ys
    by (cases ys) simp_all
  then have "js_sort (\<lambda>a b. 0) xs = xs"
    by (induction xs) (simp_all add: js_sort_def)
  moreover have "compareTasks sn \<lparr>key = None, direction = d\<rparr> = (\<lambda>a b. 0)"
    by (simp add: compareTasks_def fun_eq_iff)
  ultimately show ?thesis by (simp add: sortedTasks_def)
qed

lemma sortedTasks_example:
  "sortedTasks (\<lambda>s. None) \<lparr>key = Some ''title'', direction = ''asc''\<rparr>
     [[(''title'', JStr ''pear'')], [(''title'', JStr ''Apple'')], [(''title'', JStr ''fig'')]] =
     [[(''title'', JStr ''Apple'')], [(''title'', JStr ''fig'')], [(''title'', JStr ''pear'')]] \<and>
   sortedTasks (\<lambda>s. None) \<lparr>key = Some ''title'', direction = ''desc''\<rparr>
     [[(''title'', JStr ''pear'')], [(''title'', JStr ''Apple'')], [(''title'', JStr ''fig'')]] =
     [[(''title'', JStr ''pear'')], [(''title'', JStr ''fig'')], [(''title'', JStr ''Apple'')]]"
  by code_simp

text \<open>
  C7. For every filtered task list whose titles are pairwise distinct, sorting by
  \<open>title\<close> in descending direction gives the reverse of sorting it by \<open>title\<close> in
  ascending direction; and so for the results of any sort that returns a permutation
  ordered by the comparator, whatever its algorithm. Whether or not titles tie, both
  results are permutations of the filtered list.
\<close>

theorem sort_title_desc_is_rev_asc:
  assumes "filteredTasks lower f ts = Inr filtered"
  shows "(distinct (map (\<lambda>t. js_get t ''title'') filtered) \<longrightarrow>
            sortedTasks sn \<lparr>key = Some ''title'', direction = ''desc''\<rparr> filtered =
              rev (sortedTasks sn \<lparr>key = Some ''title'', direction = ''asc''\<rparr> filtered) \<and>
            (\<forall>ys zs.
               mset ys = mset filtered \<and>
               sorted_wrt (\<lambda>a b. compareTasks sn \<lparr>key = Some ''title'', direction = ''asc''\<rparr> a b
                                  \<le> 0) ys \<and>
               mset zs = mset filtered \<and>
               sorted_wrt (\<lambda>a b. compareTasks sn \<lparr>key = Some ''title'', direction = ''desc''\<rparr> a b
                                  \<le> 0) zs \<longrightarrow>
               zs = rev ys)) \<and>
         mset (sortedTasks sn \<lparr>key = Some ''title'', direction = ''desc''\<rparr> filtered) =
           mset filtered \<and>
         mset (sortedTasks sn \<lparr>key = Some ''title'', direction = ''asc''\<rparr> filtered) =
           mset filtered"
proof -
  have "\<forall>t\<in>set ts. \<exists>x. js_get t ''title'' = JStr x"
    using assms unfolding filteredTasks_def by (rule js_filter_Inr_titles)
  moreover have "set filtered \<subseteq> set ts"
    using assms unfolding filteredTasks_def by (rule js_filter_subset)
  ultimately have t: "\<forall>t\<in>set filtered. \<exists>x. js_get t ''title'' = JStr x" by blast
  have 1: "sortedTasks sn \<lparr>key = Some ''title'', direction = ''desc''\<rparr> filtered =
              rev (sortedTasks sn \<lparr>key = Some ''title'', direction = ''asc''\<rparr> filtered)"
    if "distinct (map (\<lambda>t. js_get t ''title'') filtered)"
    using t that by (rule sort_title_rev)
  have 2: "zs = rev ys"
    if "distinct (map (\<lambda>t. js_get t ''title'') filtered)"
      and "mset ys = mset filtered"
      and "sorted_wrt (\<lambda>a b. compareTasks sn \<lparr>key = Some ''title'', direction = ''asc''\<rparr> a b
                                  \<le> 0) ys"
      and "mset zs = mset filtered"
      and "sorted_wrt (\<lambda>a b. compareTasks sn \<lparr>key = Some ''title'', direction = ''desc''\<rparr> a b
                                  \<le> 0) zs"
    for ys zs
    using t that by (rule sort_title_rev_unique)
  have 3: "mset (sortedTasks sn \<lparr>key = Some ''title'', direction = ''desc''\<rparr> filtered) =
           mset filtered"
    "mset (sortedTasks sn \<lparr>key = Some ''title'', direction = ''asc''\<rparr> filtered) =
           mset filtered"
    by (simp_all add: sortedTasks_def mset_js_sort)
  show ?thesis using 1 2 3 by blast
qed

theorem sort_title_desc_is_rev_asc_witness:
  "filteredTasks ascii_lower \<lparr>title = [], priority = ''all'', status = ''all''\<rparr>
     [[(''title'', JStr ''pear'')], [(''title'', JStr ''Apple'')], [(''title'', JStr ''fig'')]] =
     Inr [[(''title'', JStr ''pear'')], [(''title'', JStr ''Apple'')], [(''title'', JStr ''fig'')]] \<and>
   distinct (map (\<lambda>t. js_get t ''title'')
     [[(''title'', JStr ''pear'')], [(''title'', JStr ''Apple'')], [(''title'', JStr ''fig'')]]) \<and>
   sortedTasks (\<lambda>s. None) \<lparr>key = Some ''title'', direction = ''desc''\<rparr>
     [[(''title'', JStr ''pear'')], [(''title'', JStr ''Apple'')], [(''title'', JStr ''fig'')]] =
     rev (sortedTasks (\<lambda>s. None) \<lparr>key = Some ''title'', direction = ''asc''\<rparr>
       [[(''title'', JStr ''pear'')], [(''title'', JStr ''Apple'')], [(''title'', JStr ''fig'')]])"
proof -
  let ?ts = "[[(''title'', JStr ''pear'')], [(''title'', JStr ''Apple'')], [(''title'', JStr ''fig'')]]"
  have h: "filteredTasks ascii_lower \<lparr>title = [], priority = ''all'', status = ''all''\<rparr> ?ts = Inr ?ts"
    by code_simp
  have d: "distinct (map (\<lambda>t. js_get t ''title'') ?ts)"
    by (simp add: js_get_def)
  from sort_title_desc_is_rev_asc [OF h, of "\<lambda>s. None"] d
  have "sortedTasks (\<lambda>s. None) \<lparr>key = Some ''title'', direction = ''desc''\<rparr> ?ts =
          rev (sortedTasks (\<lambda>s. None) \<lparr>key = Some ''title'', direction = ''asc''\<rparr> ?ts)"
    by (elim conjE impE) assumption
  with h d show ?thesis by (intro conjI)
qed

subsection \<open>Paginate\<close>

lemma filter_upt_less: "filter (\<lambda>i. i < n) [a..<b] = [a..<min b n]"
proof (induction b)
  case 0
  then show ?case by simp
next
  case (Suc b)
  show ?case
  proof (cases "Suc b \<le> n")
    case True
    then show ?thesis using Suc by (simp add: min_def)
  next
    case False
    then have "min (Suc b) n = n" "min b n = n" by simp_all
    then show ?thesis using Suc False by auto
  qed
qed

lemma take_drop_nth: "take n (drop k xs) = map (\<lambda>i. xs ! i) [k..<min (k + n) (length xs)]"
proof (rule nth_equalityI)
  show "length (take n (drop k xs)) = length (map (\<lambda>i. xs ! i) [k..<min (k + n) (length xs)])"
    by (auto simp: min_def)
next
  fix i
  assume "i < length (take n (drop k xs))"
  then have i: "i < n" "k + i < length xs" by auto
  then have "i < min (k + n) (length xs) - k" by simp
  then have "map (\<lambda>i. xs ! i) [k..<min (k + n) (length xs)] ! i = xs ! (k + i)"
    by (rule nth_map_upt)
  then show "take n (drop k xs) ! i = map (\<lambda>i. xs ! i) [k..<min (k + n) (length xs)] ! i"
    using i by simp
qed

lemma paginatedTasks_take_drop:
  assumes "1 \<le> currentPage pg" "0 \<le> pageSize pg"
  shows "paginatedTasks pg xs =
           take (nat (pageSize pg)) (drop (nat ((currentPage pg - 1) * pageSize pg)) xs)"
proof -
  let ?p = "currentPage pg" and ?s = "pageSize pg"
  have a: "0 \<le> (?p - 1) * ?s" using assms by simp
  have b: "0 \<le> ?p * ?s" using assms by simp
  have c: "?p * ?s = (?p - 1) * ?s + ?s" by (simp add: algebra_simps)
  show ?thesis
  proof (cases "(?p - 1) * ?s \<le> int (length xs)")
    case True
    then show ?thesis
      using a b assms(2) unfolding paginatedTasks_def js_slice_def Let_def c
      by (auto simp: min_def nat_add_distrib intro: take_all)
  next
    case False
    then show ?thesis
      using a b assms(2) unfolding paginatedTasks_def js_slice_def Let_def c
      by (auto simp: min_def)
  qed
qed

lemma paginatedTasks_indices:
  assumes "1 \<le> currentPage pg" "0 \<le> pageSize pg"
  shows "paginatedTasks pg xs =
           map (\<lambda>i. xs ! i)
             (filter (\<lambda>i. i < length xs)
                [nat ((currentPage pg - 1) * pageSize pg) ..< nat (currentPage pg * pageSize pg)])"
proof -
  let ?p = "currentPage pg" and ?s = "pageSize pg"
  have "0 \<le> (?p - 1) * ?s" using assms by simp
  then have "nat ((?p - 1) * ?s + ?s) = nat ((?p - 1) * ?s) + nat ?s"
    using assms(2) by (rule nat_add_distrib)
  moreover have "(?p - 1) * ?s + ?s = ?p * ?s" by (simp add: algebra_simps)
  ultimately have "nat (?p * ?s) = nat ((?p - 1) * ?s) + nat ?s" by simp
  then show ?thesis
    by (simp add: paginatedTasks_take_drop [OF assms] take_drop_nth filter_upt_less)
qed

lemma totalPages_bounds:
  assumes "1 \<le> pageSize pg"
  shows "\<exists>n. totalPages pg xs = Some n \<and> (n - 1) * pageSize pg < int (length xs) \<and>
             int (length xs) \<le> n * pageSize pg"
proof -
  let ?s = "pageSize pg" and ?q = "real (length xs) / real_of_int (pageSize pg)"
  have pos: "0 < real_of_int ?s" using assms by simp
  have "(real_of_int \<lceil>?q\<rceil> - 1) * real_of_int ?s < real (length xs)"
       "real (length xs) \<le> real_of_int \<lceil>?q\<rceil> * real_of_int ?s"
    using ceiling_divide_lower [OF pos] ceiling_divide_upper [OF pos] by blast+
  then have "real_of_int ((\<lceil>?q\<rceil> - 1) * ?s) < real_of_int (int (length xs))"
       "real_of_int (int (length xs)) \<le> real_of_int (\<lceil>?q\<rceil> * ?s)"
    by simp_all
  then have "(\<lceil>?q\<rceil> - 1) * ?s < int (length xs)" "int (length xs) \<le> \<lceil>?q\<rceil> * ?s"
    by (simp_all only: of_int_less_iff of_int_le_iff)
  then show ?thesis using assms by (simp add: totalPages_def)
qed

lemma totalPages_25_10:
  "length xs = 25 \<Longrightarrow> pageSize pg = 10 \<Longrightarrow> totalPages pg xs = Some 3"
  by (simp add: totalPages_def ceiling_eq_iff)

lemma paginatedTasks_negative_page_example:
  "paginatedTasks \<lparr>currentPage = - 1, pageSize = 2\<rparr> [1, 2, 3, 4, 5 :: int] = [2, 3]"
  by (simp add: paginatedTasks_def js_slice_def)

text \<open>
  C6. For every list, page number \<open>p\<close> (pages count from 1) and page size \<open>s\<close> (at least
  1), the paginate step returns exactly the elements at the indices from \<open>(p - 1) * s\<close>
  up to, not including, \<open>p * s\<close> that the list has, in order, and \<open>totalPages\<close> is the
  ceiling of the length divided by \<open>s\<close>, the least number of pages of size \<open>s\<close> that
  hold the list. With page size 10 and 25 elements, page 1 is the 10 elements at
  indices 0 to 9, page 3 is the 5 elements at indices 20 to 24, and there are 3 pages.
\<close>

theorem paginate_slice_and_total:
  assumes "1 \<le> currentPage pg" and "1 \<le> pageSize pg"
  shows "paginatedTasks pg xs =
           map (\<lambda>i. xs ! i)
             (filter (\<lambda>i. i < length xs)
                [nat ((currentPage pg - 1) * pageSize pg) ..< nat (currentPage pg * pageSize pg)]) \<and>
         totalPages pg xs = Some \<lceil>real (length xs) / real_of_int (pageSize pg)\<rceil> \<and>
         (\<exists>n. totalPages pg xs = Some n \<and> (n - 1) * pageSize pg < int (length xs) \<and>
              int (length xs) \<le> n * pageSize pg) \<and>
         (length xs = 25 \<and> pageSize pg = 10 \<longrightarrow>
            totalPages pg xs = Some 3 \<and>
            (currentPage pg = 1 \<longrightarrow>
               paginatedTasks pg xs = take 10 xs \<and> length (paginatedTasks pg xs) = 10) \<and>
            (currentPage pg = 3 \<longrightarrow>
               paginatedTasks pg xs = drop 20 xs \<and> length (paginatedTasks pg xs) = 5))"
proof -
  have nn: "0 \<le> pageSize pg" using assms(2) by simp
  have 1: "paginatedTasks pg xs =
           map (\<lambda>i. xs ! i)
             (filter (\<lambda>i. i < length xs)
                [nat ((currentPage pg - 1) * pageSize pg) ..< nat (currentPage pg * pageSize pg)])"
    using assms(1) nn by (rule paginatedTasks_indices)
  have 2: "totalPages pg xs = Some \<lceil>real (length xs) / real_of_int (pageSize pg)\<rceil>"
    using assms(2) by (simp add: totalPages_def)
  have 3: "\<exists>n. totalPages pg xs = Some n \<and> (n - 1) * pageSize pg < int (length xs) \<and>
              int (length xs) \<le> n * pageSize pg"
    using assms(2) by (rule totalPages_bounds)
  have td: "paginatedTasks pg xs =
              take (nat (pageSize pg)) (drop (nat ((currentPage pg - 1) * pageSize pg)) xs)"
    using assms(1) nn by (rule paginatedTasks_take_drop)
  have 4: "totalPages pg xs = Some 3" if "length xs = 25" "pageSize pg = 10"
    using that by (rule totalPages_25_10)
  have 5: "paginatedTasks pg xs = take 10 xs \<and> length (paginatedTasks pg xs) = 10"
    if "length xs = 25" "pageSize pg = 10" "currentPage pg = 1"
    using that by (simp add: td)
  have 6: "paginatedTasks pg xs = drop 20 xs \<and> length (paginatedTasks pg xs) = 5"
    if "length xs = 25" "pageSize pg = 10" "currentPage pg = 3"
    using that by (simp add: td)
  show ?thesis using 1 2 3 4 5 6 by blast
qed

theorem paginate_slice_and_total_witness:
  "1 \<le> currentPage \<lparr>currentPage = 3, pageSize = 10\<rparr> \<and>
   1 \<le> pageSize \<lparr>currentPage = 3, pageSize = 10\<rparr> \<and>
   length [1, 2, 3, 4, 5, 6, 7, 8, 9, 10, 11, 12, 13, 14, 15, 16, 17, 18, 19, 20, 21, 22, 23, 24, 25 :: int] = 25 \<and>
   paginatedTasks \<lparr>currentPage = 3, pageSize = 10\<rparr> [1, 2, 3, 4, 5, 6, 7, 8, 9, 10, 11, 12, 13, 14, 15, 16, 17, 18, 19, 20, 21, 22, 23, 24, 25 :: int] = [21, 22, 23, 24, 25] \<and>
   totalPages \<lparr>currentPage = 3, pageSize = 10\<rparr> [1, 2, 3, 4, 5, 6, 7, 8, 9, 10, 11, 12, 13, 14, 15, 16, 17, 18, 19, 20, 21, 22, 23, 24, 25 :: int] = Some 3"
proof -
  let ?pg = "\<lparr>currentPage = 3, pageSize = 10\<rparr>"
  let ?xs = "[1, 2, 3, 4, 5, 6, 7, 8, 9, 10, 11, 12, 13, 14, 15, 16, 17, 18, 19, 20, 21, 22, 23, 24, 25 :: int]"
  have h1: "1 \<le> currentPage ?pg" and h2: "1 \<le> pageSize ?pg"
    by simp_all
  have l: "length ?xs = 25" by simp
  have s: "pageSize ?pg = 10" and c: "currentPage ?pg = 3" by simp_all
  note t = paginate_slice_and_total [OF h1 h2, of ?xs]
  from t have "length ?xs = 25 \<and> pageSize ?pg = 10 \<longrightarrow>
            totalPages ?pg ?xs = Some 3 \<and>
            (currentPage ?pg = 1 \<longrightarrow>
               paginatedTasks ?pg ?xs = take 10 ?xs \<and> length (paginatedTasks ?pg ?xs) = 10) \<and>
            (currentPage ?pg = 3 \<longrightarrow>
               paginatedTasks ?pg ?xs = drop 20 ?xs \<and> length (paginatedTasks ?pg ?xs) = 5)"
    by (elim conjE)
  with l s have r: "totalPages ?pg ?xs = Some 3 \<and>
            (currentPage ?pg = 1 \<longrightarrow>
               paginatedTasks ?pg ?xs = take 10 ?xs \<and> length (paginatedTasks ?pg ?xs) = 10) \<and>
            (currentPage ?pg = 3 \<longrightarrow>
               paginatedTasks ?pg ?xs = drop 20 ?xs \<and> length (paginatedTasks ?pg ?xs) = 5)"
    by (elim impE) (intro conjI)
  then have tp: "totalPages ?pg ?xs = Some 3" by (rule conjunct1)
  from r have "currentPage ?pg = 3 \<longrightarrow>
               paginatedTasks ?pg ?xs = drop 20 ?xs \<and> length (paginatedTasks ?pg ?xs) = 5"
    by (elim conjE)
  from this c have "paginatedTasks ?pg ?xs = drop 20 ?xs \<and> length (paginatedTasks ?pg ?xs) = 5"
    by (rule mp)
  then have "paginatedTasks ?pg ?xs = drop 20 ?xs" by (rule conjunct1)
  moreover have "drop 20 ?xs = [21, 22, 23, 24, 25]" by simp
  ultimately have p: "paginatedTasks ?pg ?xs = [21, 22, 23, 24, 25]" by simp
  from h1 h2 l p tp show ?thesis by (intro conjI)
qed

section \<open>Properties of the custom fields modal\<close>

lemma validateFieldName_nonempty_iff:
  "validateFieldName lower flds nm \<noteq> [] \<longleftrightarrow>
     (nm = [] \<or> length nm < 2 \<or> (\<exists>f\<in>set flds. lower (name f) = lower nm) \<or>
      \<not> test_pattern nm)"
  by (simp add: validateFieldName_def list_ex_iff)

lemma test_pattern_ab: "test_pattern ''ab''"
  by code_simp

lemma is_ascii_ab: "is_ascii ''ab''"
  by code_simp

lemma ascii_lower_ab: "ascii_lower ''ab'' = ''ab''"
  by code_simp

lemma lowers_ascii_ab: "lowers_ascii lower \<Longrightarrow> lower ''ab'' = ''ab''"
  using is_ascii_ab ascii_lower_ab by (simp add: lowers_ascii_def)

lemma test_pattern_1field: "\<not> test_pattern ''1field''"
  by code_simp

lemma validateFieldName_duplicate_example:
  "validateFieldName ascii_lower [\<lparr>name = ''Cost'', type = ''number'', field_id = 7\<rparr>] ''cOST'' =
     ''Field name must be unique''"
  by code_simp

lemma handleAddField_accept:
  "validateFieldName lower (fields_m m) (nf_name (newField m)) = [] \<Longrightarrow>
   handleAddField lower now m =
     m\<lparr>fields_m :=
         fields_m m @
           [\<lparr>name = nf_name (newField m), type = nf_type (newField m), field_id = now\<rparr>],
       newField := \<lparr>nf_name = [], nf_type = ''text''\<rparr>, error := []\<rparr>"
  by (simp add: handleAddField_def Let_def)

lemma handleAddField_reject:
  "validateFieldName lower (fields_m m) (nf_name (newField m)) \<noteq> [] \<Longrightarrow>
   handleAddField lower now m =
     m\<lparr>error := validateFieldName lower (fields_m m) (nf_name (newField m))\<rparr>"
  by (simp add: handleAddField_def Let_def)

text \<open>
  C8. For every pending field list, \<open>validateFieldName\<close> returns a non-empty message
  exactly when the name is empty, or shorter than 2 characters, or equal without regard
  to case (that is, after \<open>toLowerCase\<close> on both) to the name of a pending field, or not
  of the form letter followed by letters, digits and underscores; it returns a string in
  every case. \<open>ab\<close> is accepted unless a pending field has that name in lower case,
  \<open>a\<close> is rejected, a name that differs from a pending field's only in case is
  rejected, and \<open>1field\<close> is rejected. When the name is accepted, \<open>handleAddField\<close>
  appends the descriptor with the form's name and type and the current time as id; when
  it is rejected, the field list stays as it was and the message is shown.
\<close>

theorem validateFieldName_rejects:
  "(validateFieldName lower flds nm \<noteq> [] \<longleftrightarrow>
      (nm = [] \<or> length nm < 2 \<or> (\<exists>f\<in>set flds. lower (name f) = lower nm) \<or>
       \<not> test_pattern nm)) \<and>
   (lowers_ascii lower \<longrightarrow>
      (validateFieldName lower flds ''ab'' = [] \<longleftrightarrow>
         \<not> (\<exists>f\<in>set flds. lower (name f) = ''ab''))) \<and>
   validateFieldName lower flds ''a'' \<noteq> [] \<and>
   ((\<exists>f\<in>set flds. lower (name f) = lower nm) \<longrightarrow>
      validateFieldName lower flds nm \<noteq> []) \<and>
   (lowers_ascii lower \<longrightarrow>
      (\<forall>f\<in>set flds. is_ascii (name f) \<and> is_ascii nm \<and> ascii_lower (name f) = ascii_lower nm \<longrightarrow>
         validateFieldName lower flds nm \<noteq> [])) \<and>
   validateFieldName lower flds ''1field'' \<noteq> [] \<and>
   (validateFieldName lower (fields_m m) (nf_name (newField m)) = [] \<longrightarrow>
      fields_m (handleAddField lower now m) =
        fields_m m @
          [\<lparr>name = nf_name (newField m), type = nf_type (newField m), field_id = now\<rparr>] \<and>
      error (handleAddField lower now m) = []) \<and>
   (validateFieldName lower (fields_m m) (nf_name (newField m)) \<noteq> [] \<longrightarrow>
      fields_m (handleAddField lower now m) = fields_m m \<and>
      error (handleAddField lower now m) =
        validateFieldName lower (fields_m m) (nf_name (newField m)))"
proof -
  have 1: "validateFieldName lower flds nm \<noteq> [] \<longleftrightarrow>
      (nm = [] \<or> length nm < 2 \<or> (\<exists>f\<in>set flds. lower (name f) = lower nm) \<or>
       \<not> test_pattern nm)"
    by (rule validateFieldName_nonempty_iff)
  have 2: "validateFieldName lower flds ''ab'' = [] \<longleftrightarrow>
      \<not> (\<exists>f\<in>set flds. lower (name f) = ''ab'')" if "lowers_ascii lower"
    using validateFieldName_nonempty_iff [of lower flds "''ab''"] lowers_ascii_ab [OF that]
    by (auto simp: test_pattern_ab)
  have 3: "validateFieldName lower flds ''a'' \<noteq> []"
    by (simp add: validateFieldName_nonempty_iff)
  have 4: "(\<exists>f\<in>set flds. lower (name f) = lower nm) \<longrightarrow>
      validateFieldName lower flds nm \<noteq> []"
    using 1 by blast
  have 5: "validateFieldName lower flds nm \<noteq> []"
    if l: "lowers_ascii lower" and f: "f \<in> set flds"
      and a: "is_ascii (name f)" "is_ascii nm" "ascii_lower (name f) = ascii_lower nm" for f
  proof -
    have "lower (name f) = lower nm" using l a by (simp add: lowers_ascii_def)
    then show ?thesis using 4 f by blast
  qed
  have 6: "validateFieldName lower flds ''1field'' \<noteq> []"
    by (simp add: validateFieldName_nonempty_iff test_pattern_1field)
  have 7: "validateFieldName lower (fields_m m) (nf_name (newField m)) = [] \<longrightarrow>
      fields_m (handleAddField lower now m) =
        fields_m m @
          [\<lparr>name = nf_name (newField m), type = nf_type (newField m), field_id = now\<rparr>] \<and>
      error (handleAddField lower now m) = []"
    by (simp add: handleAddField_accept)
  have 8: "validateFieldName lower (fields_m m) (nf_name (newField m)) \<noteq> [] \<longrightarrow>
      fields_m (handleAddField lower now m) = fields_m m \<and>
      error (handleAddField lower now m) =
        validateFieldName lower (fields_m m) (nf_name (newField m))"
    by (simp add: handleAddField_reject)
  have ab: "lowers_ascii lower \<longrightarrow>
      (validateFieldName lower flds ''ab'' = [] \<longleftrightarrow>
         \<not> (\<exists>f\<in>set flds. lower (name f) = ''ab''))"
    using 2 by blast
  have dup: "lowers_ascii lower \<longrightarrow>
      (\<forall>f\<in>set flds. is_ascii (name f) \<and> is_ascii nm \<and> ascii_lower (name f) = ascii_lower nm \<longrightarrow>
         validateFieldName lower flds nm \<noteq> [])"
    using 5 by blast
  from 1 ab 3 4 dup 6 7 8 show ?thesis by (intro conjI)
qed

theorem validateFieldName_rejects_witness:
  "lowers_ascii ascii_lower \<and>
   ascii_lower (name \<lparr>name = ''Cost'', type = ''number'', field_id = 7\<rparr>) = ascii_lower ''cOST'' \<and>
   validateFieldName ascii_lower [\<lparr>name = ''Cost'', type = ''number'', field_id = 7\<rparr>] ''cOST'' \<noteq> [] \<and>
   validateFieldName ascii_lower
     (fields_m \<lparr>fields_m = [\<lparr>name = ''Cost'', type = ''number'', field_id = 7\<rparr>],
                newField = \<lparr>nf_name = ''ab'', nf_type = ''checkbox''\<rparr>, error = []\<rparr>)
     (nf_name (newField \<lparr>fields_m = [\<lparr>name = ''Cost'', type = ''number'', field_id = 7\<rparr>],
                newField = \<lparr>nf_name = ''ab'', nf_type = ''checkbox''\<rparr>, error = []\<rparr>)) = [] \<and>
   fields_m (handleAddField ascii_lower 1700000000000
       \<lparr>fields_m = [\<lparr>name = ''Cost'', type = ''number'', field_id = 7\<rparr>],
        newField = \<lparr>nf_name = ''ab'', nf_type = ''checkbox''\<rparr>, error = []\<rparr>) =
     [\<lparr>name = ''Cost'', type = ''number'', field_id = 7\<rparr>,
      \<lparr>name = ''ab'', type = ''checkbox'', field_id = 1700000000000\<rparr>]"
proof -
  let ?c = "\<lparr>name = ''Cost'', type = ''number'', field_id = 7\<rparr>"
  let ?m = "\<lparr>fields_m = [?c], newField = \<lparr>nf_name = ''ab'', nf_type = ''checkbox''\<rparr>, error = []\<rparr>"
  have l: "lowers_ascii ascii_lower" by (rule lowers_ascii_ascii_lower)
  have a: "ascii_lower (name ?c) = ascii_lower ''cOST''"
    by code_simp
  have b: "validateFieldName ascii_lower (fields_m ?m) (nf_name (newField ?m)) = []"
    by code_simp
  note t = validateFieldName_rejects
    [where lower = ascii_lower and flds = "[?c]" and nm = "''cOST''" and m = ?m
       and now = 1700000000000]
  from a have ex: "\<exists>f\<in>set [?c]. ascii_lower (name f) = ascii_lower ''cOST''" by simp
  from t have "(\<exists>f\<in>set [?c]. ascii_lower (name f) = ascii_lower ''cOST'') \<longrightarrow>
      validateFieldName ascii_lower [?c] ''cOST'' \<noteq> []"
    by (elim conjE)
  from this ex have r: "validateFieldName ascii_lower [?c] ''cOST'' \<noteq> []" by (rule mp)
  from t have "validateFieldName ascii_lower (fields_m ?m) (nf_name (newField ?m)) = [] \<longrightarrow>
      fields_m (handleAddField ascii_lower 1700000000000 ?m) =
        fields_m ?m @
          [\<lparr>name = nf_name (newField ?m), type = nf_type (newField ?m),
            field_id = 1700000000000\<rparr>] \<and>
      error (handleAddField ascii_lower 1700000000000 ?m) = []"
    by (elim conjE)
  from this b have "fields_m (handleAddField ascii_lower 1700000000000 ?m) =
        fields_m ?m @
          [\<lparr>name = nf_name (newField ?m), type = nf_type (newField ?m),
            field_id = 1700000000000\<rparr>] \<and>
      error (handleAddField ascii_lower 1700000000000 ?m) = []"
    by (rule mp)
  then have f: "fields_m (handleAddField ascii_lower 1700000000000 ?m) =
      [?c, \<lparr>name = ''ab'', type = ''checkbox'', field_id = 1700000000000\<rparr>]"
    by simp
  from l a r b f show ?thesis by (intro conjI)
qed

end
